theory Spec2Isabelle
  imports Complex_Main "HOL-Library.Sublist"
begin

section \<open>JavaScript values used by \<open>src/tools.ts\<close>\<close>

subsection \<open>Strings\<close>

text \<open>
  A JavaScript string is a sequence of UTF-16 code units.  The templates of
  \<open>planTrip\<close> contain code units beyond one byte (the dash U+2014 of the day
  heading, the apostrophe U+2019, the letter U+00E9), and the regular
  expressions of \<open>generateMapLinks\<close> classify code units, so a string is
  modelled as the list of its code units, each a natural number.
  \<open>js\<close> writes an ASCII literal.
\<close>

type_synonym jsstring = "nat list"

definition js :: "string \<Rightarrow> jsstring" where
  "js cs = map of_char cs"

definition emDash :: nat where "emDash = 8212"
definition rsquo :: nat where "rsquo = 8217"
definition eAcute :: nat where "eAcute = 233"
definition LF :: nat where "LF = 10"

text \<open>\<open>Array.prototype.join\<close> on an array of strings.\<close>

fun join :: "jsstring \<Rightarrow> jsstring list \<Rightarrow> jsstring" where
  "join sep [] = []"
| "join sep [x] = x"
| "join sep (x # y # ys) = x @ sep @ join sep (y # ys)"

text \<open>
  White space and line terminators of ECMAScript: the code units removed by
  \<open>String.prototype.trim\<close> and matched by \<open>\s\<close>.
\<close>

definition isWhiteSpace :: "nat \<Rightarrow> bool" where
  "isWhiteSpace c \<longleftrightarrow>
     (9 \<le> c \<and> c \<le> 13) \<or> c = 32 \<or> c = 160 \<or> c = 5760 \<or>
     (8192 \<le> c \<and> c \<le> 8202) \<or> c = 8232 \<or> c = 8233 \<or> c = 8239 \<or>
     c = 8287 \<or> c = 12288 \<or> c = 65279"

definition trimStart :: "jsstring \<Rightarrow> jsstring" where
  "trimStart s = dropWhile isWhiteSpace s"

definition trimEnd :: "jsstring \<Rightarrow> jsstring" where
  "trimEnd s = rev (dropWhile isWhiteSpace (rev s))"

definition trim :: "jsstring \<Rightarrow> jsstring" where
  "trim s = trimEnd (trimStart s)"

text \<open>
  \<open>String.prototype.toLowerCase\<close>.  The ASCII letters are mapped exactly.
  Of the code units beyond ASCII only two have a lower case that contains an
  ASCII letter: U+212A (KELVIN SIGN, to \<open>k\<close>) and U+0130 (to \<open>i\<close> followed by
  U+0307); they are mapped as Unicode prescribes.  Every other code unit
  beyond ASCII is kept as it is: its lower case is again beyond ASCII, and
  \<open>planTrip\<close> uses the lowered string only as a property name that is
  compared with ASCII names.
\<close>

definition lowerUnit :: "nat \<Rightarrow> jsstring" where
  "lowerUnit c =
     (if 65 \<le> c \<and> c \<le> 90 then [c + 32]
      else if c = 8490 then [107]
      else if c = 304 then [105, 775]
      else [c])"

definition toLowerCase :: "jsstring \<Rightarrow> jsstring" where
  "toLowerCase s = concat (map lowerUnit s)"

text \<open>Decimal rendering of a non-negative integer, as a template literal does.\<close>

function showNat :: "nat \<Rightarrow> jsstring" where
  "showNat n = (if n < 10 then [48 + n] else showNat (n div 10) @ [48 + n mod 10])"
  by pat_completeness auto
termination
  by (relation "measure id") auto

declare showNat.simps [simp del]

subsection \<open>Numbers\<close>

text \<open>
  A JavaScript number is an IEEE 754 double.  The numbers of the duration
  calculation are two time values (integer milliseconds of magnitude at most
  \<open>8.64 * 10^15\<close>), their difference, its quotient by \<open>86400000\<close>, the larger
  of 1 and that quotient, and its ceiling.  A number is modelled as the
  rational it denotes, or \<open>None\<close> for NaN.  Subtraction and division round
  their exact result to the nearest double, ties to even (\<open>toDouble\<close>);
  \<open>Math.max\<close> and \<open>Math.ceil\<close> are exact on these values.  All the values
  above are zero or of magnitude between \<open>10^-8\<close> and \<open>2^54\<close>, so neither
  overflow nor a subnormal result occurs, and rounding keeps 53 significant
  bits.
\<close>

type_synonym number = "rat option"

text \<open>The number of binary digits of a natural number.\<close>

function bitLength :: "nat \<Rightarrow> nat" where
  "bitLength n = (if n = 0 then 0 else Suc (bitLength (n div 2)))"
  by pat_completeness auto
termination
  by (relation "measure id") auto

declare bitLength.simps [simp del]

definition pow2 :: "int \<Rightarrow> rat" where
  "pow2 k = (if 0 \<le> k then 2 ^ nat k else 1 / 2 ^ nat (- k))"

text \<open>
  The binary exponent of a positive rational \<open>x\<close>: the integer \<open>e\<close> with
  \<open>2^e \<le> x < 2^(e+1)\<close>.
\<close>

definition exponentOf :: "rat \<Rightarrow> int" where
  "exponentOf x =
     (if 1 \<le> x then int (bitLength (nat \<lfloor>x\<rfloor>)) - 1
      else - int (bitLength (nat (\<lceil>1 / x\<rceil> - 1))))"

definition roundHalfEven :: "rat \<Rightarrow> int" where
  "roundHalfEven y =
     (let f = \<lfloor>y\<rfloor>; r = y - of_int f
      in if r < 1 / 2 then f
         else if 1 / 2 < r then f + 1
         else if even f then f else f + 1)"

text \<open>
  Rounding to the nearest double: the significand is rounded to an integer
  multiple of the unit in the last place, \<open>2^(e - 52)\<close>.
\<close>

definition toDouble :: "rat \<Rightarrow> rat" where
  "toDouble x =
     (if x = 0 then 0
      else (let ulp = pow2 (exponentOf \<bar>x\<bar> - 52)
            in sgn x * (of_int (roundHalfEven (\<bar>x\<bar> / ulp)) * ulp)))"

definition num_sub :: "number \<Rightarrow> number \<Rightarrow> number" where
  "num_sub a b = (case (a, b) of (Some x, Some y) \<Rightarrow> Some (toDouble (x - y)) | _ \<Rightarrow> None)"

definition num_div :: "number \<Rightarrow> rat \<Rightarrow> number" where
  \<comment> \<open>division by a non-zero constant\<close>
  "num_div a d = (case a of Some x \<Rightarrow> Some (toDouble (x / d)) | None \<Rightarrow> None)"

definition Math_max :: "number \<Rightarrow> number \<Rightarrow> number" where
  "Math_max a b = (case (a, b) of (Some x, Some y) \<Rightarrow> Some (max x y) | _ \<Rightarrow> None)"

definition Math_ceil :: "number \<Rightarrow> number" where
  "Math_ceil a = (case a of Some x \<Rightarrow> Some (of_int \<lceil>x\<rceil>) | None \<Rightarrow> None)"

definition num_less :: "number \<Rightarrow> number \<Rightarrow> bool" where
  \<comment> \<open>\<open><\<close>: false as soon as one side is NaN\<close>
  "num_less a b = (case (a, b) of (Some x, Some y) \<Rightarrow> x < y | _ \<Rightarrow> False)"

text \<open>
  \<open>new Date(s).getTime()\<close>: the time value in milliseconds, NaN for an
  invalid date.  Which strings parse is the business of the runtime's
  \<open>Date\<close>; the parser is a parameter \<open>parseDate\<close> of the model, \<open>None\<close>
  standing for an invalid date.  The \<open>Date\<close> constructor keeps a time value
  only within \<open>8.64 * 10^15\<close> milliseconds of the epoch (\<open>TimeClip\<close>); beyond
  that the date is invalid.
\<close>

definition timeClip :: "int \<Rightarrow> number" where
  "timeClip t = (if \<bar>t\<bar> \<le> 8640000000000000 then Some (of_int t) else None)"

definition getTime :: "int option \<Rightarrow> number" where
  "getTime d = (case d of Some t \<Rightarrow> timeClip t | None \<Rightarrow> None)"

section \<open>The itinerary generator: \<open>planTrip\<close>\<close>

record TripRequest =
  destination :: jsstring
  start_date :: jsstring
  end_date :: jsstring
  interests :: "jsstring list option"
  friends :: "jsstring list option"

subsection \<open>Duration\<close>

definition tripLength :: "(jsstring \<Rightarrow> int option) \<Rightarrow> TripRequest \<Rightarrow> number" where
  "tripLength parseDate req =
     (let start = parseDate (start_date req);
          end = parseDate (end_date req);
          days = Math_max (Some 1)
                   (num_div (num_sub (getTime end) (getTime start)) (1000 * 60 * 60 * 24))
      in Math_ceil days)"

subsection \<open>Regional expansion\<close>

definition regionToCities :: "(jsstring \<times> jsstring list) list" where
  "regionToCities =
     [(js ''california'', [js ''Los Angeles'', js ''San Francisco'', js ''San Diego'',
                           js ''Yosemite National Park'']),
      (js ''japan'', [js ''Tokyo'', js ''Kyoto'', js ''Osaka'', js ''Hiroshima'']),
      (js ''italy'', [js ''Rome'', js ''Florence'', js ''Venice'', js ''Milan'']),
      (js ''france'', [js ''Paris'', js ''Nice'', js ''Lyon'', js ''Bordeaux'']),
      (js ''spain'', [js ''Barcelona'', js ''Madrid'', js ''Seville'', js ''Valencia'']),
      (js ''india'', [js ''Delhi'', js ''Jaipur'', js ''Agra'', js ''Mumbai'']),
      (js ''greece'', [js ''Athens'', js ''Santorini'', js ''Mykonos'', js ''Crete''])]"

text \<open>
  \<open>regionToCities[normalized]\<close> reads a property of an object literal: an own
  key gives its array; a name that is not an own key is looked up in
  \<open>Object.prototype\<close>.  A lowered string can name two inherited properties,
  \<open>constructor\<close> (the function \<open>Object\<close>) and \<open>__proto__\<close> (the prototype
  object itself); the other inherited names contain capital letters.  Every
  other name reads \<open>undefined\<close>.
\<close>

datatype jsvalue =
    Undefined
  | Array "jsstring list"
  | ObjectConstructor
  | ObjectPrototype

definition propertyOf :: "(jsstring \<times> jsstring list) list \<Rightarrow> jsstring \<Rightarrow> jsvalue" where
  "propertyOf obj key =
     (case map_of obj key of
        Some cities \<Rightarrow> Array cities
      | None \<Rightarrow>
          if key = js ''constructor'' then ObjectConstructor
          else if key = js ''__proto__'' then ObjectPrototype
          else Undefined)"

definition subDestinations :: "jsstring \<Rightarrow> jsvalue" where
  \<comment> \<open>\<open>regionToCities[normalized] || [destination]\<close>: only \<open>undefined\<close> is falsy here\<close>
  "subDestinations dest =
     (let normalized = toLowerCase dest
      in case propertyOf regionToCities normalized of
           Undefined \<Rightarrow> Array [dest]
         | v \<Rightarrow> v)"

text \<open>
  \<open>subDestinations[i % subDestinations.length]\<close>; \<open>None\<close> is \<open>undefined\<close>.
  An array of length 0 gives the index NaN, the function \<open>Object\<close> has length
  1 and no property \<open>0\<close>, the prototype object has no length: all three read
  \<open>undefined\<close>.
\<close>

fun cityOf :: "jsvalue \<Rightarrow> nat \<Rightarrow> jsstring option" where
  "cityOf (Array cs) i = (if cs = [] then None else Some (cs ! (i mod length cs)))"
| "cityOf ObjectConstructor i = None"
| "cityOf ObjectPrototype i = None"
| "cityOf Undefined i = None"

definition interpolate :: "jsstring option \<Rightarrow> jsstring" where
  \<comment> \<open>\<open>${v}\<close> in a template literal\<close>
  "interpolate v = (case v of Some s \<Rightarrow> s | None \<Rightarrow> js ''undefined'')"

subsection \<open>Example locations\<close>

definition exampleRestaurants :: "jsstring list" where
  "exampleRestaurants =
     [js ''Blue Bottle Coffee'',
      js ''The Grove Caf'' @ [eAcute],
      js ''The Local Diner'',
      js ''Harbor View Seafood Grill'',
      js ''Mountain Bistro'',
      js ''Sunset Terrace'']"

definition exampleActivities :: "jsstring list" where
  "exampleActivities =
     [js ''city walking tour'',
      js ''museum visit'',
      js ''boat ride'',
      js ''scenic lookout'',
      js ''shopping district'',
      js ''local market exploration'',
      js ''fine dining experience'']"

subsection \<open>Generating the itinerary\<close>

definition dayHeading :: "nat \<Rightarrow> jsstring \<Rightarrow> jsstring" where
  "dayHeading day city = js ''**Day '' @ showNat day @ js '' '' @ [emDash] @ js '' '' @ city @ js ''**''"

definition dayBlock :: "jsvalue \<Rightarrow> nat \<Rightarrow> jsstring" where
  "dayBlock subs i =
     (let day = i + 1;
          city = interpolate (cityOf subs i)
      in dayHeading day city @ js ''  '' @ [LF] @
         js ''- **08:00 AM:** Breakfast at '' @
           exampleRestaurants ! ((i * 3) mod length exampleRestaurants) @ js ''  '' @ [LF] @
         js ''- **10:00 AM:** '' @
           exampleActivities ! ((i * 4) mod length exampleActivities) @ js '' in '' @ city @
           js ''  '' @ [LF] @
         js ''- **12:30 PM:** Lunch at '' @
           exampleRestaurants ! ((i * 3 + 1) mod length exampleRestaurants) @ js ''  '' @ [LF] @
         js ''- **03:00 PM:** '' @
           exampleActivities ! ((i * 2 + 1) mod length exampleActivities) @ js '' nearby  '' @ [LF] @
         js ''- **07:30 PM:** Dinner at '' @
           exampleRestaurants ! ((i * 3 + 2) mod length exampleRestaurants) @ js ''  '' @ [LF])"

text \<open>
  The loop \<open>for (let i = 0; i < tripLength; i++)\<close>.  With \<open>tripLength\<close> NaN the
  test is false at once.
\<close>

definition loopBound :: "number \<Rightarrow> nat" where
  \<comment> \<open>only the measure of the loop below\<close>
  "loopBound n = (case n of Some x \<Rightarrow> nat \<lceil>x\<rceil> | None \<Rightarrow> 0)"

function itineraryLoop :: "number \<Rightarrow> jsvalue \<Rightarrow> nat \<Rightarrow> jsstring list \<Rightarrow> jsstring list" where
  "itineraryLoop len subs i acc =
     (if num_less (Some (of_nat i)) len
      then itineraryLoop len subs (i + 1) (acc @ [dayBlock subs i])
      else acc)"
  by pat_completeness auto
termination
proof (relation "measure (\<lambda>(len, subs, i, acc). loopBound len - i)")
  show "wf (measure (\<lambda>(len, subs, i, acc). loopBound len - i))" by simp
next
  fix len :: number and subs :: jsvalue and i :: nat and acc :: "jsstring list"
  assume "num_less (Some (of_nat i)) len"
  then obtain x where x: "len = Some x" "of_nat i < x"
    by (cases len) (auto simp: num_less_def)
  have "int i < \<lceil>x\<rceil>" using x(2) by (simp add: less_ceiling_iff)
  then show "((len, subs, i + 1, acc @ [dayBlock subs i]), (len, subs, i, acc))
               \<in> measure (\<lambda>(len, subs, i, acc). loopBound len - i)"
    using x(1) by (simp add: loopBound_def)
qed

declare itineraryLoop.simps [simp del]

definition itinerary :: "(jsstring \<Rightarrow> int option) \<Rightarrow> TripRequest \<Rightarrow> jsstring list" where
  "itinerary parseDate req =
     itineraryLoop (tripLength parseDate req) (subDestinations (destination req)) 0 []"

subsection \<open>The full text\<close>

definition friendsLine :: "TripRequest \<Rightarrow> jsstring" where
  \<comment> \<open>\<open>friends ? `Traveling with: ...` : ""\<close>; an array, even an empty one, is truthy\<close>
  "friendsLine req =
     (case friends req of
        Some fs \<Rightarrow> js ''Traveling with: '' @ join (js '', '') fs
      | None \<Rightarrow> [])"

definition interestsLine :: "TripRequest \<Rightarrow> jsstring" where
  "interestsLine req =
     (case interests req of
        Some xs \<Rightarrow> js ''Traveler interests: '' @ join (js '', '') xs
      | None \<Rightarrow> [])"

definition fullItinerary :: "(jsstring \<Rightarrow> int option) \<Rightarrow> TripRequest \<Rightarrow> jsstring" where
  "fullItinerary parseDate req =
     trim ([LF] @
           js ''Trip to **'' @ destination req @ js ''**  '' @ [LF] @
           friendsLine req @ [LF] @
           interestsLine req @ [LF] @
           [LF] @
           js ''Here'' @ [rsquo] @ js ''s your detailed itinerary:'' @ [LF] @
           join [LF] (itinerary parseDate req) @ [LF] @
           js ''    '')"

section \<open>Regular expressions\<close>

text \<open>
  \<open>generateMapLinks\<close> works with four regular expressions.  They are written
  as terms of the syntax below and run by a backtracking matcher that returns
  the successful end states in the order in which ECMAScript's matcher tries
  them, so the first state of the list is the match that \<open>exec\<close> reports.
  \<open>Cls invert ranges\<close> is a character class (\<open>\s\<close>, \<open>\d\<close>, \<open>[A-Z]\<close>,
  \<open>[^*]\<close>), \<open>WordB\<close> is \<open>\b\<close>, \<open>Star\<close> and \<open>Plus\<close> are the greedy \<open>*\<close> and
  \<open>+\<close>, \<open>Group\<close> is the capture group (no pattern of the source has more than
  one, and none has it under a repetition).
\<close>

datatype regex =
    Eps
  | Chr nat
  | Cls bool "(nat \<times> nat) list"
  | WordB
  | Seq regex regex
  | Alt regex regex
  | Star regex
  | Group regex

abbreviation Plus :: "regex \<Rightarrow> regex" where
  "Plus p \<equiv> Seq p (Star p)"

fun lit :: "jsstring \<Rightarrow> regex" where
  "lit [] = Eps"
| "lit [a] = Chr a"
| "lit (a # as) = Seq (Chr a) (lit as)"

fun alts :: "jsstring list \<Rightarrow> regex" where
  "alts [] = Eps"
| "alts [w] = lit w"
| "alts (w # ws) = Alt (lit w) (alts ws)"

text \<open>
  \<open>Canonicalize\<close> of a pattern without the \<open>u\<close> flag: with \<open>i\<close> a code unit is
  replaced by its upper case, unless that would turn a code unit beyond ASCII
  into an ASCII one.  All pattern characters and class members of the source
  are ASCII, and a code unit beyond ASCII never canonicalizes to an ASCII one,
  so only the ASCII letters are mapped here.
\<close>

definition canonicalize :: "bool \<Rightarrow> nat \<Rightarrow> nat" where
  "canonicalize ignoreCase ch =
     (if ignoreCase \<and> 97 \<le> ch \<and> ch \<le> 122 then ch - 32 else ch)"

definition classMatches :: "bool \<Rightarrow> bool \<Rightarrow> (nat \<times> nat) list \<Rightarrow> nat \<Rightarrow> bool" where
  \<comment> \<open>some member of the class canonicalizes to the same code unit as \<open>ch\<close>\<close>
  "classMatches ignoreCase invert ranges ch =
     (let found = list_ex (\<lambda>(lo, hi).
                    list_ex (\<lambda>a. canonicalize ignoreCase a = canonicalize ignoreCase ch)
                      [lo..<Suc hi]) ranges
      in found \<noteq> invert)"

definition isWordChar :: "nat \<Rightarrow> bool" where
  "isWordChar c \<longleftrightarrow>
     (48 \<le> c \<and> c \<le> 57) \<or> (65 \<le> c \<and> c \<le> 90) \<or> c = 95 \<or> (97 \<le> c \<and> c \<le> 122)"

definition wordAt :: "jsstring \<Rightarrow> bool" where
  "wordAt s = (case s of [] \<Rightarrow> False | c # _ \<Rightarrow> isWordChar c)"

text \<open>
  A matcher state: the input before the current position (nearest code unit
  first), the input from the current position on, and the capture.
\<close>

type_synonym mstate = "jsstring \<times> jsstring \<times> jsstring option"

text \<open>
  A repetition rejects an iteration that consumes nothing (the end index has
  not moved); consuming means that the remaining input got shorter.
\<close>

function ms :: "bool \<Rightarrow> regex \<Rightarrow> mstate \<Rightarrow> mstate list" where
  "ms ic Eps x = [x]"
| "ms ic (Chr a) (b, r, c) =
     (case r of
        [] \<Rightarrow> []
      | ch # r' \<Rightarrow> if canonicalize ic a = canonicalize ic ch then [(ch # b, r', c)] else [])"
| "ms ic (Cls invert ranges) (b, r, c) =
     (case r of
        [] \<Rightarrow> []
      | ch # r' \<Rightarrow> if classMatches ic invert ranges ch then [(ch # b, r', c)] else [])"
| "ms ic WordB (b, r, c) = (if wordAt b \<noteq> wordAt r then [(b, r, c)] else [])"
| "ms ic (Seq p q) x = concat (map (ms ic q) (ms ic p x))"
| "ms ic (Alt p q) x = ms ic p x @ ms ic q x"
| "ms ic (Star p) (b, r, c) =
     concat (map (ms ic (Star p))
               (filter (\<lambda>(b', r', c'). length r' < length r) (ms ic p (b, r, c))))
     @ [(b, r, c)]"
| "ms ic (Group p) (b, r, c) =
     map (\<lambda>(b', r', c'). (b', r', Some (take (length r - length r') r))) (ms ic p (b, r, c))"
  by pat_completeness auto
termination
  by (relation "inv_image (less_than <*lex*> less_than)
                  (\<lambda>(ic, p, (b, r, c)). (size p, length r))") auto

declare ms.simps(7) [simp del]

lemma ms_consumes:
  "(b', r', c') \<in> set (ms ic p (b, r, c)) \<Longrightarrow> \<exists>u. r = u @ r' \<and> b' = rev u @ b"
proof (induction ic p "(b, r, c)" arbitrary: b r c b' r' c' rule: ms.induct)
  case (1 ic)
  then show ?case by simp
next
  case (2 ic a b r c)
  then show ?case by (cases r) (auto split: if_splits)
next
  case (3 ic invert ranges b r c)
  then show ?case by (cases r) (auto split: if_splits)
next
  case (4 ic b r c)
  then show ?case by (simp split: if_splits)
next
  case (5 ic p q)
  from "5.prems" obtain b1 r1 c1
    where y: "(b1, r1, c1) \<in> set (ms ic p (b, r, c))"
      and z: "(b', r', c') \<in> set (ms ic q (b1, r1, c1))"
    by auto
  from "5.hyps"(1)[OF y] obtain u where u: "r = u @ r1" "b1 = rev u @ b" by blast
  from "5.hyps"(2)[OF y z] obtain v where v: "r1 = v @ r'" "b' = rev v @ b1" by blast
  from u v have "r = (u @ v) @ r' \<and> b' = rev (u @ v) @ b" by simp
  then show ?case by blast
next
  case (6 ic p q)
  from "6.prems" have "(b', r', c') \<in> set (ms ic p (b, r, c)) \<or> (b', r', c') \<in> set (ms ic q (b, r, c))"
    by simp
  then show ?case
  proof
    assume "(b', r', c') \<in> set (ms ic p (b, r, c))"
    then show ?thesis by (rule "6.hyps"(1))
  next
    assume "(b', r', c') \<in> set (ms ic q (b, r, c))"
    then show ?thesis by (rule "6.hyps"(2))
  qed
next
  case (7 ic p b r c)
  from "7.prems" have "(b', r', c') = (b, r, c) \<or>
      (\<exists>b1 r1 c1. (b1, r1, c1) \<in> set (ms ic p (b, r, c)) \<and> length r1 < length r \<and>
             (b', r', c') \<in> set (ms ic (Star p) (b1, r1, c1)))"
    by (subst (asm) ms.simps(7)) auto
  then show ?case
  proof
    assume "(b', r', c') = (b, r, c)"
    then show ?thesis by simp
  next
    assume "\<exists>b1 r1 c1. (b1, r1, c1) \<in> set (ms ic p (b, r, c)) \<and> length r1 < length r \<and>
             (b', r', c') \<in> set (ms ic (Star p) (b1, r1, c1))"
    then obtain b1 r1 c1 where go: "(b1, r1, c1) \<in> set (ms ic p (b, r, c))" "length r1 < length r"
             "(b', r', c') \<in> set (ms ic (Star p) (b1, r1, c1))" by blast
    from "7.hyps"(1)[OF go(1)] obtain u where u: "r = u @ r1" "b1 = rev u @ b" by blast
    have "(b1, r1, c1) \<in> set (filter (\<lambda>(b', r', c'). length r' < length r) (ms ic p (b, r, c)))"
      using go(1,2) by simp
    from "7.hyps"(2)[OF this go(3)] obtain v where v: "r1 = v @ r'" "b' = rev v @ b1" by blast
    from u v have "r = (u @ v) @ r' \<and> b' = rev (u @ v) @ b" by simp
    then show ?thesis by blast
  qed
next
  case (8 ic p b r c)
  from "8.prems" obtain c1 where "(b', r', c1) \<in> set (ms ic p (b, r, c))"
    by auto
  then show ?case by (rule "8.hyps")
qed

lemma ms_length:
  "(b', r', c') \<in> set (ms ic p (b, r, c)) \<Longrightarrow> length r' \<le> length r"
  by (drule ms_consumes) auto

text \<open>The match that starts exactly at a position: the first end state.\<close>

definition matchAt :: "bool \<Rightarrow> regex \<Rightarrow> jsstring \<Rightarrow> jsstring \<Rightarrow> mstate option" where
  "matchAt ic p b r = (case ms ic p (b, r, None) of [] \<Rightarrow> None | x # _ \<Rightarrow> Some x)"

lemma matchAt_length:
  "matchAt ic p b r = Some (b', r', c') \<Longrightarrow> length r' \<le> length r"
  by (auto simp: matchAt_def split: list.splits intro: ms_length[of b' r' c' ic p b r None])

text \<open>
  \<open>exec\<close> from a position: the first position, going right, at which the
  pattern matches; the result is the input from the start of the match on and
  the end state.
\<close>

fun search :: "bool \<Rightarrow> regex \<Rightarrow> jsstring \<Rightarrow> jsstring \<Rightarrow> (jsstring \<times> mstate) option" where
  "search ic p b [] =
     (case matchAt ic p b [] of None \<Rightarrow> None | Some e \<Rightarrow> Some ([], e))"
| "search ic p b (ch # r) =
     (case matchAt ic p b (ch # r) of
        None \<Rightarrow> search ic p (ch # b) r
      | Some e \<Rightarrow> Some (ch # r, e))"

lemma search_length:
  "search ic p b r = Some (r0, (b1, r1, c1)) \<Longrightarrow> length r1 \<le> length r0 \<and> length r0 \<le> length r"
proof (induction r arbitrary: b)
  case Nil
  then show ?case by (auto split: option.splits dest: matchAt_length)
next
  case (Cons ch r)
  then show ?case by (fastforce split: option.splits dest: matchAt_length)
qed

record regmatch =
  matched :: jsstring
  capture :: "jsstring option"

text \<open>
  \<open>String.prototype.match\<close> with a pattern without the \<open>g\<close> flag: the first
  match from the start of the string.
\<close>

definition firstMatch :: "bool \<Rightarrow> regex \<Rightarrow> jsstring \<Rightarrow> regmatch option" where
  "firstMatch ic p s =
     (case search ic p [] s of
        None \<Rightarrow> None
      | Some (r0, (b1, r1, c)) \<Rightarrow>
          Some \<lparr>matched = take (length r0 - length r1) r0, capture = c\<rparr>)"

text \<open>
  \<open>String.prototype.matchAll\<close> with a global pattern: \<open>exec\<close> is repeated from
  the end of the previous match, one code unit further after an empty match.
\<close>

function matchAllFrom :: "bool \<Rightarrow> regex \<Rightarrow> jsstring \<Rightarrow> jsstring \<Rightarrow> regmatch list" where
  "matchAllFrom ic p b r =
     (case search ic p b r of
        None \<Rightarrow> []
      | Some (r0, (b1, r1, c)) \<Rightarrow>
          if length r1 < length r0
          then \<lparr>matched = take (length r0 - length r1) r0, capture = c\<rparr> # matchAllFrom ic p b1 r1
          else (case r1 of
                  [] \<Rightarrow> [\<lparr>matched = [], capture = c\<rparr>]
                | ch # r2 \<Rightarrow> \<lparr>matched = [], capture = c\<rparr> # matchAllFrom ic p (ch # b1) r2))"
  by pat_completeness auto
termination
proof (relation "measure (\<lambda>(ic, p, b, r). length r)")
  show "wf (measure (\<lambda>(ic, p, b, r). length r))" by simp
next
  fix ic p b r x2 r0 y b1 z r1 c
  assume "search ic p b r = Some x2" "(r0, y) = x2" "(b1, z) = y" "(r1, c) = z"
    and lt: "length r1 < length r0"
  then have "search ic p b r = Some (r0, (b1, r1, c))" by simp
  from search_length[OF this] lt
  show "((ic, p, b1, r1), (ic, p, b, r)) \<in> measure (\<lambda>(ic, p, b, r). length r)" by simp
next
  fix ic p b r x2 r0 y b1 z r1 c ch r2
  assume "search ic p b r = Some x2" "(r0, y) = x2" "(b1, z) = y" "(r1, c) = z"
    and "r1 = ch # r2"
  then have "search ic p b r = Some (r0, (b1, ch # r2, c))" by simp
  from search_length[OF this]
  show "((ic, p, ch # b1, r2), (ic, p, b, r)) \<in> measure (\<lambda>(ic, p, b, r). length r)" by simp
qed

declare matchAllFrom.simps [simp del]

definition matchAll :: "bool \<Rightarrow> regex \<Rightarrow> jsstring \<Rightarrow> regmatch list" where
  "matchAll ic p s = matchAllFrom ic p [] s"

text \<open>
  \<open>String.prototype.split\<close> with a pattern that has no capture group (nothing
  is spliced between the pieces).  \<open>piece\<close> holds the code units since the end
  of the previous separator, last one first.  At each position the pattern is
  tried at exactly that position; a match that ends where the current piece
  starts is skipped.
\<close>

function splitLoop :: "bool \<Rightarrow> regex \<Rightarrow> jsstring \<Rightarrow> jsstring \<Rightarrow> jsstring \<Rightarrow> jsstring list" where
  "splitLoop ic p piece b r =
     (case r of
        [] \<Rightarrow> [rev piece]
      | ch # r' \<Rightarrow>
          (case matchAt ic p b r of
             None \<Rightarrow> splitLoop ic p (ch # piece) (ch # b) r'
           | Some (b1, r1, c) \<Rightarrow>
               if length r1 < length r \<or> piece \<noteq> []
               then rev piece # splitLoop ic p [] b1 r1
               else splitLoop ic p (ch # piece) (ch # b) r'))"
  by pat_completeness auto
termination
proof (relation "inv_image (less_than <*lex*> less_than)
                   (\<lambda>(ic, p, piece, b, r). (length r, length piece))")
  show "wf (inv_image (less_than <*lex*> less_than)
              (\<lambda>(ic, p, piece, b, r). (length r, length piece)))" by auto
next
  fix ic p piece b r ch r'
  assume "r = ch # r'"
  then show "((ic, p, ch # piece, ch # b, r'), (ic, p, piece, b, r))
        \<in> inv_image (less_than <*lex*> less_than)
             (\<lambda>(ic, p, piece, b, r). (length r, length piece))" by simp
next
  fix ic p piece b r ch r' x2 b1 y r1 c
  assume r: "r = ch # r'" and m: "matchAt ic p b r = Some x2" "(b1, y) = x2" "(r1, c) = y"
    and cond: "length r1 < length r \<or> piece \<noteq> []"
  from m have "matchAt ic p b r = Some (b1, r1, c)" by simp
  from matchAt_length[OF this] cond
  show "((ic, p, [], b1, r1), (ic, p, piece, b, r))
        \<in> inv_image (less_than <*lex*> less_than)
             (\<lambda>(ic, p, piece, b, r). (length r, length piece))" by auto
next
  fix ic p piece b r ch r' x2 b1 y r1 c
  assume "r = ch # r'"
  then show "((ic, p, ch # piece, ch # b, r'), (ic, p, piece, b, r))
        \<in> inv_image (less_than <*lex*> less_than)
             (\<lambda>(ic, p, piece, b, r). (length r, length piece))" by simp
qed

declare splitLoop.simps [simp del]

definition split :: "bool \<Rightarrow> regex \<Rightarrow> jsstring \<Rightarrow> jsstring list" where
  "split ic p s =
     (if s = [] then (case matchAt ic p [] [] of None \<Rightarrow> [[]] | Some e \<Rightarrow> [])
      else splitLoop ic p [] [] s)"

section \<open>The map-link builder: \<open>generateMapLinks\<close>\<close>

subsection \<open>Exceptions and \<open>encodeURIComponent\<close>\<close>

datatype jserror = TypeError | URIError

text \<open>\<open>xs.map(f)\<close> and \<open>xs.forEach(f)\<close> for an \<open>f\<close> that may throw: the first throw ends the call.\<close>

fun mapE :: "('a \<Rightarrow> jserror + 'b) \<Rightarrow> 'a list \<Rightarrow> jserror + 'b list" where
  "mapE f [] = Inr []"
| "mapE f (x # xs) =
     (case f x of
        Inl e \<Rightarrow> Inl e
      | Inr y \<Rightarrow> (case mapE f xs of Inl e \<Rightarrow> Inl e | Inr ys \<Rightarrow> Inr (y # ys)))"

definition uriUnescaped :: "nat \<Rightarrow> bool" where
  \<comment> \<open>letters, digits and \<open>- _ . ! ~ * ' ( )\<close>\<close>
  "uriUnescaped c \<longleftrightarrow>
     (65 \<le> c \<and> c \<le> 90) \<or> (97 \<le> c \<and> c \<le> 122) \<or> (48 \<le> c \<and> c \<le> 57) \<or>
     c \<in> set [45, 95, 46, 33, 126, 42, 39, 40, 41]"

definition hexDigit :: "nat \<Rightarrow> nat" where
  "hexDigit n = (if n < 10 then 48 + n else 55 + n)"

definition percent :: "nat \<Rightarrow> jsstring" where
  "percent octet = [37, hexDigit (octet div 16), hexDigit (octet mod 16)]"

definition utf8 :: "nat \<Rightarrow> nat list" where
  "utf8 cp =
     (if cp < 128 then [cp]
      else if cp < 2048 then [192 + cp div 64, 128 + cp mod 64]
      else if cp < 65536 then [224 + cp div 4096, 128 + (cp div 64) mod 64, 128 + cp mod 64]
      else [240 + cp div 262144, 128 + (cp div 4096) mod 64, 128 + (cp div 64) mod 64,
            128 + cp mod 64])"

text \<open>
  \<open>encodeURIComponent\<close> keeps the unescaped code units and writes every other
  code point as the percent-escaped octets of its UTF-8 form; a surrogate
  without its partner throws \<open>URIError\<close>.
\<close>

fun encodeURIComponent :: "jsstring \<Rightarrow> jserror + jsstring" where
  "encodeURIComponent [] = Inr []"
| "encodeURIComponent (c # cs) =
     (if uriUnescaped c then
        (case encodeURIComponent cs of Inl e \<Rightarrow> Inl e | Inr t \<Rightarrow> Inr (c # t))
      else if c < 55296 \<or> 57343 < c then
        (case encodeURIComponent cs of
           Inl e \<Rightarrow> Inl e
         | Inr t \<Rightarrow> Inr (concat (map percent (utf8 c)) @ t))
      else if 56320 \<le> c then Inl URIError
      else
        (case cs of
           [] \<Rightarrow> Inl URIError
         | d # ds \<Rightarrow>
             if 56320 \<le> d \<and> d \<le> 57343 then
               (case encodeURIComponent ds of
                  Inl e \<Rightarrow> Inl e
                | Inr t \<Rightarrow>
                    Inr (concat (map percent
                           (utf8 ((c - 55296) * 1024 + (d - 56320) + 65536))) @ t))
             else Inl URIError))"

subsection \<open>The patterns\<close>

definition whiteSpaceClass :: regex where
  \<comment> \<open>\<open>\s\<close>\<close>
  "whiteSpaceClass =
     Cls False [(9, 13), (32, 32), (160, 160), (5760, 5760), (8192, 8202), (8232, 8233),
                (8239, 8239), (8287, 8287), (12288, 12288), (65279, 65279)]"

definition digitClass :: regex where
  \<comment> \<open>\<open>\d\<close>\<close>
  "digitClass = Cls False [(48, 57)]"

definition phraseClass :: regex where
  \<comment> \<open>\<open>[\w'&\- ]\<close>\<close>
  "phraseClass =
     Cls False [(48, 57), (65, 90), (95, 95), (97, 122), (39, 39), (38, 38), (45, 45), (32, 32)]"

definition headingRegex :: regex where
  \<comment> \<open>\<open>/\*\*Day\s+\d+/g\<close>\<close>
  "headingRegex = Seq (lit (js ''**Day'')) (Seq (Plus whiteSpaceClass) (Plus digitClass))"

definition titleRegex :: regex where
  \<comment> \<open>\<open>/\*\*Day\s+(\d+)[^*]*/g\<close>\<close>
  "titleRegex =
     Seq (lit (js ''**Day''))
       (Seq (Plus whiteSpaceClass)
          (Seq (Group (Plus digitClass)) (Star (Cls True [(42, 42)]))))"

definition phraseGroup :: regex where
  \<comment> \<open>\<open>([A-Z][\w'&\- ]+)\<close>\<close>
  "phraseGroup = Group (Seq (Cls False [(65, 90)]) (Plus phraseClass))"

definition afterWord :: regex where
  \<comment> \<open>\<open>\s+([A-Z][\w'&\- ]+)\<close>\<close>
  "afterWord = Seq (Plus whiteSpaceClass) phraseGroup"

definition prepositionPhrase :: "jsstring list \<Rightarrow> regex" where
  \<comment> \<open>\<open>/\b(?:w1|w2|...)\s+([A-Z][\w'&\- ]+)/\<close>\<close>
  "prepositionPhrase words = Seq WordB (Seq (alts words) afterWord)"

definition locationRegex :: regex where
  \<comment> \<open>\<open>/\b(?:at|in|around|near|visit|explore|lunch at|dinner at)\s+([A-Z][\w'&\- ]+)/gi\<close>\<close>
  "locationRegex =
     prepositionPhrase [js ''at'', js ''in'', js ''around'', js ''near'', js ''visit'',
                        js ''explore'', js ''lunch at'', js ''dinner at'']"

definition contextRegex :: regex where
  \<comment> \<open>\<open>/\b(?:in|around|near|visit|explore)\s+([A-Z][\w'&\- ]+)/i\<close>\<close>
  "contextRegex =
     prepositionPhrase [js ''in'', js ''around'', js ''near'', js ''visit'', js ''explore'']"

subsection \<open>\<open>execute\<close>\<close>

definition inferredDestination :: "jsstring option \<Rightarrow> jsstring" where
  \<comment> \<open>\<open>destination || "the trip destination"\<close>: \<open>undefined\<close> and the empty string are falsy\<close>
  "inferredDestination dest =
     (case dest of
        None \<Rightarrow> js ''the trip destination''
      | Some d \<Rightarrow> if d = [] then js ''the trip destination'' else d)"

definition dayBlocks :: "jsstring \<Rightarrow> jsstring list" where
  "dayBlocks itineraryText = drop 1 (split False headingRegex itineraryText)"

definition dayTitles :: "jsstring \<Rightarrow> jsstring list" where
  "dayTitles itineraryText = map (\<lambda>m. trim (matched m)) (matchAll False titleRegex itineraryText)"

definition trimmedCapture :: "regmatch \<Rightarrow> jserror + jsstring" where
  \<comment> \<open>\<open>m[1].trim()\<close>; a group that took no part reads \<open>undefined\<close>, and the call throws\<close>
  "trimmedCapture m = (case capture m of None \<Rightarrow> Inl TypeError | Some g \<Rightarrow> Inr (trim g))"

definition places :: "jsstring \<Rightarrow> jserror + jsstring list" where
  "places block = mapE trimmedCapture (matchAll True locationRegex block)"

definition localContext :: "jsstring \<Rightarrow> jsstring \<Rightarrow> jserror + jsstring" where
  "localContext inferred block =
     (case firstMatch True contextRegex block of
        Some localContextMatch \<Rightarrow> trimmedCapture localContextMatch
      | None \<Rightarrow> Inr inferred)"

definition bullet :: nat where "bullet = 8226"

definition mapLink :: "jsstring \<Rightarrow> jsstring \<Rightarrow> jserror + jsstring" where
  "mapLink context place =
     (let query = place @ js '', '' @ context
      in case encodeURIComponent query of
           Inl e \<Rightarrow> Inl e
         | Inr encoded \<Rightarrow>
             (let url = js ''https://www.google.com/maps/search/?api=1&query='' @ encoded
              in Inr ([bullet] @ js '' ['' @ place @ js '' ('' @ context @ js '')]('' @ url @ js '')'')))"

definition titleOr :: "jsstring list \<Rightarrow> nat \<Rightarrow> jsstring" where
  \<comment> \<open>\<open>dayTitles[index] || `Day ${index + 1}`\<close>\<close>
  "titleOr titles index =
     (if index < length titles \<and> titles ! index \<noteq> [] then titles ! index
      else js ''Day '' @ showNat (index + 1))"

definition daySection :: "jsstring \<Rightarrow> jsstring list \<Rightarrow> nat \<Rightarrow> jsstring \<Rightarrow> jserror + jsstring" where
  "daySection inferred titles index block =
     (case places block of
        Inl e \<Rightarrow> Inl e
      | Inr ps \<Rightarrow>
          (case localContext inferred block of
             Inl e \<Rightarrow> Inl e
           | Inr context \<Rightarrow>
               if length ps > 0 then
                 (case mapE (mapLink context) ps of
                    Inl e \<Rightarrow> Inl e
                  | Inr dailyLinks \<Rightarrow>
                      Inr (js ''**'' @ titleOr titles index @ js ''**'' @ [LF] @
                           join [LF] dailyLinks))
               else
                 Inr (js ''**'' @ titleOr titles index @ js ''**'' @ [LF] @
                      js ''No recognizable locations found.'')))"

fun forEachBlock ::
  "(nat \<Rightarrow> jsstring \<Rightarrow> jserror + jsstring) \<Rightarrow> nat \<Rightarrow> jsstring list \<Rightarrow> jserror + jsstring list"
where
  "forEachBlock f index [] = Inr []"
| "forEachBlock f index (block # blocks) =
     (case f index block of
        Inl e \<Rightarrow> Inl e
      | Inr section \<Rightarrow>
          (case forEachBlock f (index + 1) blocks of
             Inl e \<Rightarrow> Inl e
           | Inr sections \<Rightarrow> Inr (section # sections)))"

definition links :: "jsstring \<Rightarrow> jsstring option \<Rightarrow> jserror + jsstring list" where
  "links itineraryText dest =
     forEachBlock (daySection (inferredDestination dest) (dayTitles itineraryText)) 0
       (dayBlocks itineraryText)"

definition generateMapLinks :: "jsstring \<Rightarrow> jsstring option \<Rightarrow> jserror + jsstring" where
  "generateMapLinks itineraryText dest =
     (case links itineraryText dest of
        Inl e \<Rightarrow> Inl e
      | Inr ls \<Rightarrow>
          Inr (trim ([LF] @ js '' **Google Maps Links for Each Day**'' @ [LF] @ [LF] @
                     join [LF, LF] ls @ [LF] @ js ''    '')))"

subsection \<open>\<open>planTrip\<close> as a whole\<close>

definition planTrip :: "(jsstring \<Rightarrow> int option) \<Rightarrow> TripRequest \<Rightarrow> jserror + jsstring" where
  "planTrip parseDate req =
     (let full = fullItinerary parseDate req
      in case generateMapLinks full (Some (destination req)) of
           Inl e \<Rightarrow> Inl e
         | Inr mapLinks \<Rightarrow> Inr (full @ [LF, LF] @ mapLinks))"

section \<open>The preposition patterns in words\<close>

text \<open>
  A second description of what the two preposition patterns find, written
  without the matcher: an occurrence starts at a word boundary with one of
  the words, in either case; white space follows; then comes the phrase, an
  ASCII letter of either case and the longest non-empty run of letters,
  digits, underscores, apostrophes, ampersands, hyphens and spaces.
\<close>

definition isLetter :: "nat \<Rightarrow> bool" where
  "isLetter c \<longleftrightarrow> (65 \<le> c \<and> c \<le> 90) \<or> (97 \<le> c \<and> c \<le> 122)"

definition isPhraseChar :: "nat \<Rightarrow> bool" where
  "isPhraseChar c \<longleftrightarrow> isWordChar c \<or> c = 39 \<or> c = 38 \<or> c = 45 \<or> c = 32"

definition upperCase :: "nat \<Rightarrow> nat" where
  "upperCase c = (if 97 \<le> c \<and> c \<le> 122 then c - 32 else c)"

definition startsWithWord :: "jsstring \<Rightarrow> jsstring \<Rightarrow> bool" where
  "startsWithWord w r \<longleftrightarrow>
     length w \<le> length r \<and> map upperCase (take (length w) r) = map upperCase w"

definition spec_phraseAfter :: "jsstring \<Rightarrow> (jsstring \<times> jsstring) option" where
  \<comment> \<open>the phrase and the text after it\<close>
  "spec_phraseAfter r =
     (if takeWhile isWhiteSpace r = [] then None
      else case dropWhile isWhiteSpace r of
             [] \<Rightarrow> None
           | l # r2 \<Rightarrow>
               if isLetter l \<and> takeWhile isPhraseChar r2 \<noteq> []
               then Some (l # takeWhile isPhraseChar r2, dropWhile isPhraseChar r2)
               else None)"

fun spec_firstWord :: "jsstring list \<Rightarrow> jsstring \<Rightarrow> (jsstring \<times> jsstring) option" where
  "spec_firstWord [] r = None"
| "spec_firstWord (w # ws) r =
     (case (if startsWithWord w r then spec_phraseAfter (drop (length w) r) else None) of
        Some x \<Rightarrow> Some x
      | None \<Rightarrow> spec_firstWord ws r)"

definition spec_occurrenceAt ::
  "jsstring list \<Rightarrow> jsstring \<Rightarrow> jsstring \<Rightarrow> (jsstring \<times> jsstring) option" where
  "spec_occurrenceAt words b r =
     (if wordAt b \<noteq> wordAt r then spec_firstWord words r else None)"

fun spec_nextOccurrence ::
  "jsstring list \<Rightarrow> jsstring \<Rightarrow> jsstring \<Rightarrow> (jsstring \<times> jsstring \<times> jsstring) option" where
  "spec_nextOccurrence words b [] = None"
| "spec_nextOccurrence words b (ch # r) =
     (case spec_occurrenceAt words b (ch # r) of
        Some (phrase, rest) \<Rightarrow>
          Some (phrase, rev (take (length (ch # r) - length rest) (ch # r)) @ b, rest)
      | None \<Rightarrow> spec_nextOccurrence words (ch # b) r)"

lemma spec_phraseAfter_length:
  "spec_phraseAfter r = Some (phrase, rest) \<Longrightarrow> length rest < length r"
proof -
  assume a: "spec_phraseAfter r = Some (phrase, rest)"
  then obtain l r2 where d: "dropWhile isWhiteSpace r = l # r2" and rest: "rest = dropWhile isPhraseChar r2"
    by (auto simp: spec_phraseAfter_def split: if_splits list.splits)
  have "length rest \<le> length r2" unfolding rest by (rule length_dropWhile_le)
  moreover have "length (dropWhile isWhiteSpace r) \<le> length r" by (rule length_dropWhile_le)
  ultimately show ?thesis using d by simp
qed

lemma spec_firstWord_length:
  "spec_firstWord words r = Some (phrase, rest) \<Longrightarrow> length rest < length r"
proof (induction words)
  case Nil
  then show ?case by simp
next
  case (Cons w ws)
  show ?case
  proof (cases "if startsWithWord w r then spec_phraseAfter (drop (length w) r) else None")
    case None
    with Cons show ?thesis by simp
  next
    case (Some x)
    with Cons.prems have x: "x = (phrase, rest)" by simp
    from Some x have "spec_phraseAfter (drop (length w) r) = Some (phrase, rest)"
      by (simp split: if_splits)
    from spec_phraseAfter_length[OF this] show ?thesis by simp
  qed
qed

lemma spec_nextOccurrence_length:
  "spec_nextOccurrence words b r = Some (phrase, b1, r1) \<Longrightarrow> length r1 < length r"
proof (induction r arbitrary: b)
  case Nil
  then show ?case by simp
next
  case (Cons ch r)
  show ?case
  proof (cases "spec_occurrenceAt words b (ch # r)")
    case None
    with Cons.prems have "spec_nextOccurrence words (ch # b) r = Some (phrase, b1, r1)" by simp
    from Cons.IH[OF this] show ?thesis by simp
  next
    case (Some x)
    with Cons.prems have x: "x = (phrase, r1)" by (cases x) simp
    from Some x have "spec_firstWord words (ch # r) = Some (phrase, r1)"
      by (simp add: spec_occurrenceAt_def split: if_splits)
    from spec_firstWord_length[OF this] show ?thesis .
  qed
qed

function spec_places :: "jsstring list \<Rightarrow> jsstring \<Rightarrow> jsstring \<Rightarrow> jsstring list" where
  "spec_places words b r =
     (case spec_nextOccurrence words b r of
        None \<Rightarrow> []
      | Some (phrase, b1, r1) \<Rightarrow> trim phrase # spec_places words b1 r1)"
  by pat_completeness auto
termination
proof (relation "measure (\<lambda>(words, b, r). length r)")
  show "wf (measure (\<lambda>(words, b, r). length r))" by simp
next
  fix words b r x2 phrase y b1 r1
  assume "spec_nextOccurrence words b r = Some x2" "(phrase, y) = x2" "(b1, r1) = y"
  then have "spec_nextOccurrence words b r = Some (phrase, b1, r1)" by simp
  from spec_nextOccurrence_length[OF this]
  show "((words, b1, r1), (words, b, r)) \<in> measure (\<lambda>(words, b, r). length r)" by simp
qed

declare spec_places.simps [simp del]

definition spec_localContext :: "jsstring list \<Rightarrow> jsstring \<Rightarrow> jsstring \<Rightarrow> jsstring" where
  "spec_localContext words fallback block =
     (case spec_nextOccurrence words [] block of
        Some (phrase, b1, r1) \<Rightarrow> trim phrase
      | None \<Rightarrow> fallback)"

section \<open>Auxiliary notions\<close>

text \<open>The end state of the title pattern, given the end state of the heading pattern.\<close>

definition skipNotStar :: "mstate \<Rightarrow> jsstring option \<Rightarrow> mstate" where
  "skipNotStar x g =
     (case x of (b1, r1, c1) \<Rightarrow>
        (rev (takeWhile (\<lambda>ch. ch \<noteq> 42) r1) @ b1, dropWhile (\<lambda>ch. ch \<noteq> 42) r1, g))"

section \<open>Sample inputs\<close>

text \<open>
  A date parser for the worked examples: two ISO dates with the time values a
  runtime gives them (midnight UTC), every other string invalid.
\<close>

definition sampleDates :: "jsstring \<Rightarrow> int option" where
  "sampleDates s =
     (if s = js ''2024-05-01'' then Some 1714521600000
      else if s = js ''2024-05-03'' then Some 1714694400000
      else None)"

definition japanTrip :: TripRequest where
  "japanTrip = \<lparr>destination = js ''japan'', start_date = js ''2024-05-01'',
                 end_date = js ''2024-05-03'', interests = None, friends = None\<rparr>"

definition backwardsTrip :: TripRequest where
  "backwardsTrip = \<lparr>destination = js ''Atlantis'', start_date = js ''2024-05-03'',
                 end_date = js ''2024-05-01'', interests = None, friends = None\<rparr>"

definition undatedTrip :: TripRequest where
  "undatedTrip = \<lparr>destination = js ''Paris'', start_date = js ''next week'',
                   end_date = js ''2024-05-03'', interests = None, friends = None\<rparr>"

definition groupTrip :: TripRequest where
  "groupTrip = \<lparr>destination = js ''japan'', start_date = js ''2024-05-01'',
                 end_date = js ''2024-05-03'', interests = None,
                 friends = Some [js ''Ann'', js ''Bob'']\<rparr>"

text \<open>
  A parser for two dates 400000 years and one millisecond apart, with the time
  values of the proleptic Gregorian calendar, and a trip between them.
\<close>

definition farDates :: "jsstring \<Rightarrow> int option" where
  "farDates s =
     (if s = js ''-200000-01-01T00:00:00.000Z'' then Some (- 6373557619200000)
      else if s = js ''+200000-01-01T00:00:00.001Z'' then Some 6249223180800001
      else None)"

definition farTrip :: TripRequest where
  "farTrip = \<lparr>destination = js ''Paris'', start_date = js ''-200000-01-01T00:00:00.000Z'',
               end_date = js ''+200000-01-01T00:00:00.001Z'', interests = None, friends = None\<rparr>"

text \<open>A hand-written itinerary text of two days.\<close>

definition sampleText :: jsstring where
  "sampleText = js ''**Day 1 Rome** dinner at Roma Sparita. **Day 2 Rest** nothing planned.''"

text \<open>
  An itinerary text of one day that mentions the same place twice, and the
  link line of that place in the context \<open>Italy\<close>.
\<close>

definition repeatText :: jsstring where
  "repeatText = js ''**Day 1 Rome** dinner at Rome, drinks at Rome.''"

definition romeLink :: jsstring where
  "romeLink = [bullet] @
     js '' [Rome (Italy)](https://www.google.com/maps/search/?api=1&query=Rome%2C%20Italy)''"

section \<open>Properties of the number model\<close>

lemma bitLength_numeral [simp]:
  "bitLength 0 = 0"
  "bitLength (Suc 0) = Suc 0"
  "bitLength (numeral (Num.Bit0 k)) = Suc (bitLength (numeral k))"
  "bitLength (numeral (Num.Bit1 k)) = Suc (bitLength (numeral k))"
proof -
  show "bitLength 0 = 0" by (subst bitLength.simps) simp
  show "bitLength (Suc 0) = Suc 0" by (subst bitLength.simps, subst bitLength.simps) simp
  show "bitLength (numeral (Num.Bit0 k)) = Suc (bitLength (numeral k))"
    by (subst bitLength.simps) (simp add: numeral_Bit0_div_2)
  show "bitLength (numeral (Num.Bit1 k)) = Suc (bitLength (numeral k))"
    by (subst bitLength.simps) (simp add: numeral_Bit1_div_2)
qed

lemma bitLength_le: "n < 2 ^ k \<Longrightarrow> bitLength n \<le> k"
proof (induction k arbitrary: n)
  case 0
  then have "n = 0" by simp
  then show ?case by simp
next
  case (Suc k)
  show ?case
  proof (cases "n = 0")
    case True
    then show ?thesis by simp
  next
    case False
    from Suc.prems have "n div 2 < 2 ^ k" by simp
    from Suc.IH[OF this] False show ?thesis by (subst bitLength.simps) simp
  qed
qed

lemma bitLength_pos: "0 < n \<Longrightarrow> 0 < bitLength n"
  by (subst bitLength.simps) simp

lemma pow2_pos: "0 < pow2 k"
  by (simp add: pow2_def)

lemma roundHalfEven_of_int: "roundHalfEven (of_int m) = m"
  by (simp add: roundHalfEven_def)

lemma roundHalfEven_nonneg: "0 \<le> y \<Longrightarrow> 0 \<le> roundHalfEven y"
  by (simp add: roundHalfEven_def Let_def)

lemma roundHalfEven_le:
  assumes "y \<le> of_int M"
  shows "roundHalfEven y \<le> M"
proof (cases "y = of_int M")
  case True
  then show ?thesis by (simp add: roundHalfEven_of_int)
next
  case False
  with assms have "y < of_int M" by simp
  then have "\<lfloor>y\<rfloor> < M" by (simp add: floor_less_iff)
  then show ?thesis by (simp add: roundHalfEven_def Let_def)
qed

lemma roundHalfEven_ge:
  assumes "of_int m + 1 / 2 < y"
  shows "m + 1 \<le> roundHalfEven y"
proof (cases "m + 1 \<le> \<lfloor>y\<rfloor>")
  case True
  then show ?thesis by (simp add: roundHalfEven_def Let_def)
next
  case False
  moreover have "m \<le> \<lfloor>y\<rfloor>" using assms by (simp add: le_floor_iff)
  ultimately have f: "\<lfloor>y\<rfloor> = m" by simp
  with assms have "1 / 2 < y - of_int \<lfloor>y\<rfloor>" by simp
  then show ?thesis using f by (simp add: roundHalfEven_def Let_def)
qed

lemma toDouble_nonpos: "x \<le> 0 \<Longrightarrow> toDouble x \<le> 0"
proof -
  assume x: "x \<le> 0"
  show ?thesis
  proof (cases "x = 0")
    case True
    then show ?thesis by (simp add: toDouble_def)
  next
    case False
    with x have neg: "x < 0" by simp
    let ?ulp = "pow2 (exponentOf \<bar>x\<bar> - 52)"
    have "0 \<le> \<bar>x\<bar> / ?ulp" using pow2_pos[of "exponentOf \<bar>x\<bar> - 52"] by simp
    then have "0 \<le> roundHalfEven (\<bar>x\<bar> / ?ulp)" by (rule roundHalfEven_nonneg)
    then have "0 \<le> of_int (roundHalfEven (\<bar>x\<bar> / ?ulp)) * ?ulp"
      using pow2_pos[of "exponentOf \<bar>x\<bar> - 52"] by simp
    with neg False show ?thesis by (simp add: toDouble_def Let_def)
  qed
qed

text \<open>A positive number below 1 is rounded to at most 1.\<close>

lemma toDouble_below_one:
  assumes "0 < x" "x < 1"
  shows "toDouble x \<le> 1"
proof -
  define k where "k = bitLength (nat (\<lceil>1 / x\<rceil> - 1))"
  have ax: "\<bar>x\<bar> = x" "x \<noteq> 0" "sgn x = 1" using assms by simp_all
  have e: "exponentOf x = - int k" using assms by (simp add: exponentOf_def k_def)
  have ulp: "pow2 (exponentOf x - 52) = 1 / 2 ^ (k + 52)"
    by (simp add: e pow2_def nat_add_distrib)
  have "x * 2 ^ (k + 52) \<le> of_int (2 ^ (k + 52))" using assms by simp
  then have "roundHalfEven (x * 2 ^ (k + 52)) \<le> 2 ^ (k + 52)" by (rule roundHalfEven_le)
  then have "(of_int (roundHalfEven (x * 2 ^ (k + 52))) :: rat) \<le> of_int (2 ^ (k + 52))"
    by (simp only: of_int_le_iff)
  then have "(of_int (roundHalfEven (x * 2 ^ (k + 52))) :: rat) / 2 ^ (k + 52) \<le> 1"
    by (simp add: divide_le_eq)
  then show ?thesis unfolding toDouble_def Let_def ax ulp using ax(2) by simp
qed

text \<open>
  A number from 1 to \<open>2^27\<close> is rounded on a grid of step \<open>1 / S\<close> with
  \<open>S\<close> at least \<open>2^26\<close>.
\<close>

lemma toDouble_grid:
  assumes "1 \<le> x" "x < 2 ^ 27"
  shows "\<exists>S::nat. 2 ^ 26 \<le> S \<and> toDouble x = of_int (roundHalfEven (x * of_nat S)) / of_nat S"
proof -
  define b where "b = bitLength (nat \<lfloor>x\<rfloor>)"
  have fl: "0 < nat \<lfloor>x\<rfloor>" using assms(1) by (simp add: le_floor_iff)
  have "\<lfloor>x\<rfloor> < 2 ^ 27" using assms(2) by (simp add: floor_less_iff)
  then have "nat \<lfloor>x\<rfloor> < 2 ^ 27" using fl by (simp add: nat_less_iff)
  then have b27: "b \<le> 27" unfolding b_def by (rule bitLength_le)
  have b1: "1 \<le> b" unfolding b_def using bitLength_pos[OF fl] by simp
  define j where "j = 53 - b"
  have j: "26 \<le> j" "int b - 1 - 52 = - int j" using b27 b1 by (simp_all add: j_def)
  have ax: "\<bar>x\<bar> = x" "x \<noteq> 0" "sgn x = 1" using assms(1) by simp_all
  have e: "exponentOf x = int b - 1" using assms(1) by (simp add: exponentOf_def b_def)
  have ulp: "pow2 (exponentOf x - 52) = 1 / 2 ^ j"
    unfolding e j(2) using j(1) by (simp add: pow2_def)
  have "(2::nat) ^ 26 \<le> 2 ^ j" by (rule power_increasing) (use j(1) in simp_all)
  moreover have "toDouble x = of_int (roundHalfEven (x * of_nat (2 ^ j))) / of_nat (2 ^ j)"
    unfolding toDouble_def Let_def ax ulp using ax(2) by simp
  ultimately show ?thesis by blast
qed

lemma toDouble_of_int:
  assumes "\<bar>n\<bar> \<le> 2 ^ 53"
  shows "toDouble (of_int n) = of_int n"
proof (cases "n = 0")
  case True
  then show ?thesis by (simp add: toDouble_def)
next
  case False
  define a where "a = \<bar>n\<bar>"
  have a: "0 < a" "a \<le> 2 ^ 53" using False assms by (simp_all add: a_def)
  define b where "b = bitLength (nat a)"
  have e: "exponentOf \<bar>of_int n\<bar> = int b - 1"
  proof -
    have "\<bar>(of_int n :: rat)\<bar> = of_int a" by (simp add: a_def)
    moreover have "(1::rat) \<le> of_int a" using a(1) by simp
    ultimately show ?thesis by (simp add: exponentOf_def b_def)
  qed
  have r: "of_int (roundHalfEven (\<bar>of_int n\<bar> / pow2 (int b - 1 - 52))) * pow2 (int b - 1 - 52)
             = (of_int a :: rat)"
  proof (cases "a = 2 ^ 53")
    case True
    then have "nat a = 9007199254740992" by simp
    then have "b = 54" by (simp add: b_def)
    then have p: "pow2 (int b - 1 - 52) = 2" by (simp add: pow2_def)
    have "\<bar>(of_int n :: rat)\<bar> / 2 = of_int (2 ^ 52)"
      using True by (simp add: a_def[symmetric] flip: of_int_abs)
    then show ?thesis unfolding p using True by (simp only: roundHalfEven_of_int) simp
  next
    case False
    with a have "a < 2 ^ 53" by simp
    then have "nat a < 2 ^ 53" using a(1) by (simp add: nat_less_iff)
    then have b53: "b \<le> 53" unfolding b_def by (rule bitLength_le)
    define j where "j = 53 - b"
    have j: "int b - 1 - 52 = - int j" using b53 by (simp add: j_def)
    have p: "pow2 (int b - 1 - 52) = 1 / 2 ^ j" unfolding j by (simp add: pow2_def)
    have "\<bar>(of_int n :: rat)\<bar> / (1 / 2 ^ j) = of_int (a * 2 ^ j)"
      by (simp add: a_def)
    then show ?thesis unfolding p by (simp only: roundHalfEven_of_int) simp
  qed
  have "sgn (of_int n :: rat) * of_int a = of_int n"
    by (simp add: a_def sgn_if)
  with r False show ?thesis by (simp add: toDouble_def Let_def e)
qed

lemma toDouble_one: "toDouble 1 = 1"
  using toDouble_of_int[of 1] by simp

lemma ceiling_toDouble_large:
  fixes n :: int
  assumes "86400000 < n" "n \<le> 2 ^ 53"
  shows "\<lceil>toDouble (of_int n / 86400000)\<rceil> = \<lceil>(of_int n / 86400000 :: rat)\<rceil>"
    and "1 < toDouble (of_int n / 86400000)"
proof -
  define q :: rat where "q = of_int n / 86400000"
  have q1: "1 < q" using assms(1) by (simp add: q_def)
  have "n \<le> 9007199254740992" using assms(2) by simp
  then have "(of_int n :: rat) \<le> of_int 9007199254740992" by (simp only: of_int_le_iff)
  then have q27: "q < 2 ^ 27" by (simp add: q_def)
  from toDouble_grid[of q] q1 q27 obtain S :: nat
    where S: "2 ^ 26 \<le> S" and t: "toDouble q = of_int (roundHalfEven (q * of_nat S)) / of_nat S"
    by auto
  have Spos: "(0::rat) < of_nat S" using S by simp
  have "(67108864::nat) \<le> S" using S by simp
  then have "(of_nat 67108864 :: rat) \<le> of_nat S" by (simp only: of_nat_le_iff)
  then have Sge: "(67108864::rat) \<le> of_nat S" by simp
  define k where "k = \<lfloor>q\<rfloor>"
  have k1: "1 \<le> k" using q1 by (simp add: k_def le_floor_iff)
  have kq: "of_int k \<le> q" "q < of_int k + 1"
    using floor_correct[of q] by (simp_all only: k_def of_int_add of_int_1)
  have both: "\<lceil>toDouble q\<rceil> = \<lceil>q\<rceil> \<and> 1 < toDouble q"
  proof (cases "q = of_int k")
    case True
    have "q * of_nat S = of_int (k * int S)" by (simp add: True)
    then have "toDouble q = of_int (k * int S) / of_nat S"
      unfolding t by (simp only: roundHalfEven_of_int)
    then have "toDouble q = q" using Spos by (simp add: True)
    then show ?thesis using q1 by simp
  next
    case False
    with kq have lt: "of_int k < q" by simp
    then have "(of_int (k * 86400000) :: rat) < of_int n" by (simp add: q_def pos_less_divide_eq)
    then have "k * 86400000 < n" by (simp only: of_int_less_iff)
    then have "k * 86400000 + 1 \<le> n" by simp
    then have "(of_int (k * 86400000 + 1) :: rat) \<le> of_int n" by (simp only: of_int_le_iff)
    then have step: "of_int k + 1 / 86400000 \<le> q" by (simp add: q_def pos_le_divide_eq field_simps)
    have "(1::rat) / 2 < 67108864 / 86400000" by simp
    also have "\<dots> \<le> of_nat S / 86400000" using Sge by (simp add: divide_right_mono)
    finally have half: "(1::rat) / 2 < of_nat S / 86400000" .
    have "(of_int k + 1 / 86400000) * of_nat S \<le> q * of_nat S"
      using step Spos by (simp add: mult_right_mono)
    then have "of_int k * of_nat S + of_nat S / 86400000 \<le> q * of_nat S"
      by (simp add: algebra_simps)
    with half have "of_int (k * int S) + 1 / 2 < q * of_nat S" by simp
    then have lo: "k * int S + 1 \<le> roundHalfEven (q * of_nat S)" by (rule roundHalfEven_ge)
    have "q * of_nat S \<le> (of_int k + 1) * of_nat S"
      using kq(2) Spos by (simp add: mult_right_mono)
    then have "q * of_nat S \<le> of_int ((k + 1) * int S)" by simp
    then have hi: "roundHalfEven (q * of_nat S) \<le> (k + 1) * int S" by (rule roundHalfEven_le)
    define m where "m = roundHalfEven (q * of_nat S)"
    have "(of_int (k * int S + 1) :: rat) \<le> of_int m" using lo unfolding m_def by (simp only: of_int_le_iff)
    then have "of_int k * of_nat S < (of_int m :: rat)" by simp
    then have a: "of_int k < toDouble q" unfolding t m_def[symmetric] using Spos
      by (simp add: pos_less_divide_eq)
    have "(of_int m :: rat) \<le> of_int ((k + 1) * int S)" using hi unfolding m_def by (simp only: of_int_le_iff)
    then have "(of_int m :: rat) \<le> (of_int k + 1) * of_nat S" by simp
    then have b: "toDouble q \<le> of_int k + 1" unfolding t m_def[symmetric] using Spos
      by (simp add: pos_divide_le_eq)
    have "\<lceil>toDouble q\<rceil> = k + 1" using a b by (simp add: ceiling_unique)
    moreover have "\<lceil>q\<rceil> = k + 1" using lt kq(2) by (simp add: ceiling_unique)
    moreover have "1 < toDouble q"
    proof -
      have "(1::rat) \<le> of_int k" using k1 by simp
      with a show ?thesis by simp
    qed
    ultimately show ?thesis by simp
  qed
  show "\<lceil>toDouble (of_int n / 86400000)\<rceil> = \<lceil>(of_int n / 86400000 :: rat)\<rceil>"
    using both by (simp add: q_def)
  show "1 < toDouble (of_int n / 86400000)" using both by (simp add: q_def)
qed

lemma ceiling_toDouble_quotient:
  fixes n :: int
  assumes "n \<le> 2 ^ 53"
  shows "\<lceil>max 1 (toDouble (of_int n / 86400000))\<rceil> = max 1 \<lceil>(of_int n / 86400000 :: rat)\<rceil>"
proof -
  consider "n \<le> 0" | "0 < n" "n < 86400000" | "n = 86400000" | "86400000 < n" by linarith
  then show ?thesis
  proof cases
    case 1
    then have "(of_int n / 86400000 :: rat) \<le> 0" by simp
    then have "toDouble (of_int n / 86400000) \<le> 0" "\<lceil>(of_int n / 86400000 :: rat)\<rceil> \<le> 0"
      by (simp_all add: toDouble_nonpos ceiling_le_iff)
    then show ?thesis by (simp add: max_def)
  next
    case 2
    then have q: "0 < (of_int n / 86400000 :: rat)" "(of_int n / 86400000 :: rat) < 1" by simp_all
    then have "toDouble (of_int n / 86400000) \<le> 1" by (rule toDouble_below_one)
    moreover have "\<lceil>(of_int n / 86400000 :: rat)\<rceil> = 1"
      using q by (intro ceiling_unique) simp_all
    ultimately show ?thesis by (simp add: max_def)
  next
    case 3
    then show ?thesis by (simp add: toDouble_one)
  next
    case 4
    from ceiling_toDouble_large[OF 4 assms]
    have c: "\<lceil>toDouble (of_int n / 86400000)\<rceil> = \<lceil>(of_int n / 86400000 :: rat)\<rceil>"
      and g: "1 < toDouble (of_int n / 86400000)" .
    have "1 < (of_int n / 86400000 :: rat)" using 4 by simp
    then have "1 \<le> \<lceil>(of_int n / 86400000 :: rat)\<rceil>" by (simp add: le_ceiling_iff)
    with c g show ?thesis by (simp add: max_def)
  qed
qed

text \<open>
  The day count of a difference of \<open>n\<close> milliseconds, as the doubles compute
  it, is the exact one as long as \<open>n\<close> is at most \<open>2^53\<close>.
\<close>

lemma days_double:
  fixes n :: int
  assumes "n \<le> 2 ^ 53"
  shows "\<lceil>max 1 (toDouble (toDouble (of_int n) / 86400000))\<rceil>
           = max 1 \<lceil>(of_int n / 86400000 :: rat)\<rceil>"
proof (cases "n \<le> 0")
  case True
  then have "(of_int n :: rat) \<le> 0" by simp
  then have "toDouble (of_int n) \<le> 0" by (rule toDouble_nonpos)
  then have "toDouble (of_int n) / 86400000 \<le> 0" by simp
  then have a: "toDouble (toDouble (of_int n) / 86400000) \<le> 0" by (rule toDouble_nonpos)
  have "(of_int n / 86400000 :: rat) \<le> 0" using True by simp
  then have b: "\<lceil>(of_int n / 86400000 :: rat)\<rceil> \<le> 0" by (simp add: ceiling_le_iff)
  from a b show ?thesis by (simp add: max_def)
next
  case False
  with assms have "\<bar>n\<bar> \<le> 2 ^ 53" by simp
  then have "toDouble (of_int n) = of_int n" by (rule toDouble_of_int)
  then show ?thesis using ceiling_toDouble_quotient[OF assms] by simp
qed

lemma toDouble_far: "toDouble 12622780800000001 = 12622780800000000"
proof -
  have f: "\<lfloor>(12622780800000001::rat) / 2\<rfloor> = 6311390400000000"
    by (rule floor_unique) simp_all
  show ?thesis
    by (simp add: toDouble_def exponentOf_def pow2_def roundHalfEven_def Let_def f)
qed

lemma toDouble_far_days: "toDouble 146097000 = 146097000"
  using toDouble_of_int[of 146097000] by simp

section \<open>Properties of the generator\<close>

lemma itineraryLoop_eq:
  "itineraryLoop (Some (of_int n)) subs i acc = acc @ map (dayBlock subs) [i..<nat n]"
proof (induction "nat n - i" arbitrary: i acc)
  case 0
  then have "\<not> num_less (Some (of_nat i)) (Some (of_int n))"
    by (auto simp: num_less_def)
  moreover have "[i..<nat n] = []" using 0 by simp
  ultimately show ?case by (subst itineraryLoop.simps) simp
next
  case (Suc k)
  then have lt: "i < nat n" by simp
  then have "num_less (Some (of_nat i)) (Some (of_int n))"
    by (auto simp: num_less_def) 
  moreover have "k = nat n - (i + 1)" using Suc by simp
  ultimately show ?case using Suc(1)[of "i + 1"] lt
    by (subst itineraryLoop.simps) (simp add: upt_conv_Cons)
qed

lemma itineraryLoop_NaN: "itineraryLoop None subs i acc = acc"
  by (subst itineraryLoop.simps) (simp add: num_less_def)

lemma ceiling_max_one: "\<lceil>max 1 (q::rat)\<rceil> = max 1 \<lceil>q\<rceil>"
proof (cases "1 \<le> q")
  case True
  then have "1 \<le> \<lceil>q\<rceil>" by (simp add: le_ceiling_iff)
  with True show ?thesis by (simp add: max_def)
next
  case False
  then have "max 1 q = 1" by simp
  moreover have "\<lceil>q\<rceil> \<le> 1" using False by (simp add: ceiling_le_iff)
  then have "max 1 \<lceil>q\<rceil> = 1" by (rule max_absorb1)
  ultimately show ?thesis by simp
qed

lemma tripLength_valid:
  assumes "parseDate (start_date req) = Some s" "parseDate (end_date req) = Some e"
    and "\<bar>s\<bar> \<le> 8640000000000000" "\<bar>e\<bar> \<le> 8640000000000000" "e - s \<le> 2 ^ 53"
  shows "tripLength parseDate req = Some (of_int (max 1 \<lceil>of_int (e - s) / (86400000::rat)\<rceil>))"
proof -
  have "tripLength parseDate req
          = Some (of_int \<lceil>max 1 (toDouble (toDouble (of_int (e - s)) / 86400000))\<rceil>)"
    using assms(1-4)
    by (simp add: tripLength_def getTime_def timeClip_def num_sub_def num_div_def Math_max_def
          Math_ceil_def)
  then show ?thesis by (simp only: days_double[OF assms(5)])
qed

lemma itinerary_valid:
  assumes "parseDate (start_date req) = Some s" "parseDate (end_date req) = Some e"
    and "\<bar>s\<bar> \<le> 8640000000000000" "\<bar>e\<bar> \<le> 8640000000000000" "e - s \<le> 2 ^ 53"
  shows "itinerary parseDate req =
           map (dayBlock (subDestinations (destination req)))
             [0..<nat (max 1 \<lceil>of_int (e - s) / (86400000::rat)\<rceil>)]"
  by (simp only: itinerary_def tripLength_valid[OF assms] itineraryLoop_eq append_Nil)

lemma itinerary_invalid:
  assumes "parseDate (start_date req) = None \<or> parseDate (end_date req) = None"
  shows "itinerary parseDate req = []"
proof -
  have "tripLength parseDate req = None"
    using assms
    by (auto simp: tripLength_def getTime_def num_sub_def num_div_def Math_max_def Math_ceil_def
          split: option.splits)
  then show ?thesis by (simp add: itinerary_def itineraryLoop_NaN)
qed

lemma sample_times:
  "sampleDates (start_date japanTrip) = Some 1714521600000"
  "sampleDates (end_date japanTrip) = Some 1714694400000"
  "\<bar>1714521600000 :: int\<bar> \<le> 8640000000000000"
  "\<bar>1714694400000 :: int\<bar> \<le> 8640000000000000"
  "(1714694400000 :: int) - 1714521600000 \<le> 2 ^ 53"
  by (simp_all add: sampleDates_def japanTrip_def js_def)

lemma japanTrip_itinerary:
  "itinerary sampleDates japanTrip
     = map (dayBlock (subDestinations (destination japanTrip))) [0..<2]"
  by (simp add: itinerary_valid[OF sample_times])

text \<open>
  Claim C1, amended.  When both dates parse to time values that a \<open>Date\<close>
  holds and the end lies at most \<open>2^53\<close> milliseconds after the start, the
  number of days computed by \<open>planTrip\<close> is the ceiling of the larger of 1 and
  the difference of the two time values in days, which is the ceiling of that
  difference floored at 1; it is at least 1 also when the end date precedes
  the start date, and the itinerary has exactly that many day blocks.
\<close>

theorem planTrip_days:
  assumes "parseDate (start_date req) = Some s" and "parseDate (end_date req) = Some e"
    and "\<bar>s\<bar> \<le> 8640000000000000" and "\<bar>e\<bar> \<le> 8640000000000000"
    and "e - s \<le> 2 ^ 53"
  shows "tripLength parseDate req = Math_ceil (Some (max 1 (of_int (e - s) / 86400000))) \<and>
         tripLength parseDate req = Some (of_int (max 1 \<lceil>of_int (e - s) / (86400000::rat)\<rceil>)) \<and>
         length (itinerary parseDate req) = nat (max 1 \<lceil>of_int (e - s) / (86400000::rat)\<rceil>) \<and>
         1 \<le> length (itinerary parseDate req)"
proof -
  have b: "tripLength parseDate req = Some (of_int (max 1 \<lceil>of_int (e - s) / (86400000::rat)\<rceil>))"
    by (rule tripLength_valid[OF assms])
  have "Math_ceil (Some (max 1 (of_int (e - s) / 86400000)))
          = Some (of_int (max 1 \<lceil>of_int (e - s) / (86400000::rat)\<rceil>))"
    by (simp only: Math_ceil_def option.case ceiling_max_one)
  with b have a: "tripLength parseDate req = Math_ceil (Some (max 1 (of_int (e - s) / 86400000)))"
    by simp
  have len: "length (itinerary parseDate req) = nat (max 1 \<lceil>of_int (e - s) / (86400000::rat)\<rceil>)"
    by (simp only: itinerary_valid[OF assms] length_map length_upt diff_zero)
  have "1 \<le> length (itinerary parseDate req)"
    unfolding len by simp
  with a b len show ?thesis by (intro conjI)
qed

theorem planTrip_days_witness:
  "sampleDates (start_date japanTrip) = Some 1714521600000 \<and>
   sampleDates (end_date japanTrip) = Some 1714694400000 \<and>
   \<bar>1714521600000 :: int\<bar> \<le> 8640000000000000 \<and>
   \<bar>1714694400000 :: int\<bar> \<le> 8640000000000000 \<and>
   (1714694400000 :: int) - 1714521600000 \<le> 2 ^ 53 \<and>
   length (itinerary sampleDates japanTrip) = 2 \<and>
   sampleDates (start_date backwardsTrip) = Some 1714694400000 \<and>
   sampleDates (end_date backwardsTrip) = Some 1714521600000 \<and>
   (1714521600000 :: int) - 1714694400000 \<le> 2 ^ 53 \<and>
   length (itinerary sampleDates backwardsTrip) = 1"
proof -
  have s: "sampleDates (start_date japanTrip) = Some 1714521600000"
    and e: "sampleDates (end_date japanTrip) = Some 1714694400000"
    by (simp_all add: sampleDates_def japanTrip_def js_def)
  have s': "sampleDates (start_date backwardsTrip) = Some 1714694400000"
    and e': "sampleDates (end_date backwardsTrip) = Some 1714521600000"
    by (simp_all add: sampleDates_def backwardsTrip_def js_def)
  have vs: "\<bar>1714521600000 :: int\<bar> \<le> 8640000000000000"
    and ve: "\<bar>1714694400000 :: int\<bar> \<le> 8640000000000000"
    and d: "(1714694400000 :: int) - 1714521600000 \<le> 2 ^ 53"
    and d': "(1714521600000 :: int) - 1714694400000 \<le> 2 ^ 53"
    by simp_all
  have "length (itinerary sampleDates japanTrip) = 2"
    using planTrip_days[OF s e vs ve d] by simp
  moreover have "length (itinerary sampleDates backwardsTrip) = 1"
    using planTrip_days[OF s' e' ve vs d'] by simp
  ultimately show ?thesis
    using s e s' e' vs ve d d' by (intro conjI)
qed

text \<open>
  Claim C1 as stated has no bound on the distance of the two dates.  The
  dates 1 January of the year -200000 and one millisecond after 1 January of
  the year 200000 are both valid; their time values differ by
  12622780800000001 milliseconds, which is more than 146097000 days, so the
  ceiling is 146097001.  The subtraction of the code rounds the difference
  to the double 12622780800000000, and \<open>planTrip\<close> computes 146097000 days and
  that many day blocks.
\<close>

theorem far_dates_counterexample:
  "farDates (start_date farTrip) = Some (- 6373557619200000) \<and>
   farDates (end_date farTrip) = Some 6249223180800001 \<and>
   timeClip (- 6373557619200000) \<noteq> None \<and>
   timeClip 6249223180800001 \<noteq> None \<and>
   max 1 \<lceil>of_int (6249223180800001 - (- 6373557619200000)) / (86400000::rat)\<rceil> = 146097001 \<and>
   tripLength farDates farTrip = Some 146097000 \<and>
   length (itinerary farDates farTrip) = 146097000"
proof -
  have s: "farDates (start_date farTrip) = Some (- 6373557619200000)"
    and e: "farDates (end_date farTrip) = Some 6249223180800001"
    by (simp_all add: farDates_def farTrip_def js_def)
  have c: "timeClip (- 6373557619200000) = Some (- 6373557619200000)"
    "timeClip 6249223180800001 = Some 6249223180800001"
    by (simp_all add: timeClip_def)
  have "\<lceil>(12622780800000001::rat) / 86400000\<rceil> = 146097001"
    by (rule ceiling_unique) simp_all
  then have x: "max 1 \<lceil>of_int (6249223180800001 - (- 6373557619200000)) / (86400000::rat)\<rceil>
                  = 146097001"
    by simp
  have "num_sub (Some 6249223180800001) (Some (- 6373557619200000)) = Some 12622780800000000"
    by (simp add: num_sub_def toDouble_far)
  then have t: "tripLength farDates farTrip = Some 146097000"
    by (simp add: tripLength_def s e getTime_def c num_div_def toDouble_far_days Math_max_def
          Math_ceil_def)
  have "tripLength farDates farTrip = Some (of_int 146097000)"
    by (simp add: t)
  then have "itinerary farDates farTrip
               = map (dayBlock (subDestinations (destination farTrip))) [0..<nat 146097000]"
    by (simp only: itinerary_def itineraryLoop_eq append_Nil)
  then have "length (itinerary farDates farTrip) = nat 146097000"
    by (simp only: length_map length_upt diff_zero)
  then have l: "length (itinerary farDates farTrip) = 146097000" by simp
  show ?thesis using s e c x t l by simp
qed

text \<open>
  Claim C2.  A request whose start date does not parse should still yield the
  one-day itinerary.  In the code the invalid date gives the time value NaN,
  \<open>Math.max(1, NaN)\<close> and its ceiling are NaN, the loop test \<open>0 < NaN\<close> is
  false, and the itinerary has no day block at all.
\<close>

theorem invalid_date_no_day_block:
  "sampleDates (start_date undatedTrip) = None \<and>
   tripLength sampleDates undatedTrip = None \<and>
   itinerary sampleDates undatedTrip = [] \<and>
   length (itinerary sampleDates undatedTrip) \<noteq> 1"
proof -
  have s: "sampleDates (start_date undatedTrip) = None"
    by (simp add: sampleDates_def undatedTrip_def js_def)
  then have "tripLength sampleDates undatedTrip = None"
    by (simp add: tripLength_def getTime_def num_sub_def num_div_def Math_max_def Math_ceil_def
          split: option.splits)
  moreover have "itinerary sampleDates undatedTrip = []"
    using s by (simp add: itinerary_invalid)
  ultimately show ?thesis using s by simp
qed

lemma catalog_lists:
  assumes "map_of regionToCities k = Some cs"
  shows "length cs = 4"
  using assms by (auto simp: regionToCities_def split: if_splits)

lemma subDestinations_known:
  assumes "map_of regionToCities (toLowerCase d) = Some cs"
  shows "subDestinations d = Array cs"
  using assms by (simp add: subDestinations_def propertyOf_def)

text \<open>
  Claim C4.  When the lowered destination is a key of the region catalog with
  city list \<open>cs\<close>, the sub-locations are \<open>cs\<close>, the city of the 0-based day
  \<open>i\<close> is \<open>cs ! (i mod length cs)\<close>, days \<open>i\<close> and \<open>i + length cs\<close> get the same
  city, and the block generated for day \<open>i\<close> carries that city in its heading.
\<close>

theorem region_cities_cycle:
  assumes "map_of regionToCities (toLowerCase (destination req)) = Some cs"
  shows "subDestinations (destination req) = Array cs \<and>
         cs \<noteq> [] \<and>
         cityOf (subDestinations (destination req)) i = Some (cs ! (i mod length cs)) \<and>
         cityOf (subDestinations (destination req)) (i + length cs)
           = cityOf (subDestinations (destination req)) i \<and>
         (i < length (itinerary parseDate req) \<longrightarrow>
            itinerary parseDate req ! i = dayBlock (Array cs) i \<and>
            prefix (dayHeading (i + 1) (cs ! (i mod length cs))) (itinerary parseDate req ! i))"
proof -
  have sub: "subDestinations (destination req) = Array cs"
    by (rule subDestinations_known[OF assms])
  have ne: "cs \<noteq> []" using catalog_lists[OF assms] by auto
  have blk: "itinerary parseDate req ! i = dayBlock (Array cs) i"
    if "i < length (itinerary parseDate req)"
  proof (cases "tripLength parseDate req")
    case None
    then have "itinerary parseDate req = []" by (simp add: itinerary_def itineraryLoop_NaN)
    with that show ?thesis by simp
  next
    case (Some x)
    then obtain n where x: "x = of_int n"
      by (auto simp: tripLength_def Math_ceil_def split: option.splits)
    have it: "itinerary parseDate req = map (dayBlock (Array cs)) [0..<nat n]"
      using Some x sub by (simp add: itinerary_def itineraryLoop_eq)
    with that show ?thesis by simp
  qed
  have pre: "prefix (dayHeading (i + 1) (cs ! (i mod length cs))) (dayBlock (Array cs) i)"
    using ne by (simp add: dayBlock_def interpolate_def Let_def)
  show ?thesis using sub ne blk pre by simp
qed

theorem region_cities_cycle_witness:
  "map_of regionToCities (toLowerCase (destination japanTrip))
     = Some [js ''Tokyo'', js ''Kyoto'', js ''Osaka'', js ''Hiroshima''] \<and>
   cityOf (subDestinations (destination japanTrip)) 1 = Some (js ''Kyoto'') \<and>
   cityOf (subDestinations (destination japanTrip)) (1 + 4)
     = cityOf (subDestinations (destination japanTrip)) 1 \<and>
   1 < length (itinerary sampleDates japanTrip) \<and>
   prefix (dayHeading 2 (js ''Kyoto'')) (itinerary sampleDates japanTrip ! 1)"
proof -
  have low: "toLowerCase (js ''japan'') = js ''japan''"
    by (simp add: toLowerCase_def lowerUnit_def js_def)
  have m: "map_of regionToCities (toLowerCase (destination japanTrip))
          = Some [js ''Tokyo'', js ''Kyoto'', js ''Osaka'', js ''Hiroshima'']"
    by (simp add: japanTrip_def low) (simp add: regionToCities_def js_def)
  have len: "1 < length (itinerary sampleDates japanTrip)"
    by (simp add: japanTrip_itinerary)
  show ?thesis
    using region_cities_cycle[OF m, of 1 sampleDates] len m by (auto simp: numeral_2_eq_2)
qed

lemma subDestinations_unknown:
  assumes "propertyOf regionToCities (toLowerCase d) = Undefined"
  shows "subDestinations d = Array [d]"
  using assms by (simp add: subDestinations_def)

lemma unknown_destination_city:
  assumes "propertyOf regionToCities (toLowerCase d) = Undefined"
  shows "interpolate (cityOf (subDestinations d) i) = d"
  by (simp add: subDestinations_unknown[OF assms] interpolate_def)

text \<open>
  Claim C5.  A destination that is no key of the catalog should be its own
  single sub-location.  For the destination \<open>constructor\<close> the property read
  finds the inherited \<open>Object.prototype.constructor\<close>, the fallback
  \<open>[destination]\<close> is not taken, and the city of the day is \<open>undefined\<close>.
\<close>

theorem constructor_destination_city:
  "map_of regionToCities (toLowerCase (js ''constructor'')) = None \<and>
   subDestinations (js ''constructor'') = ObjectConstructor \<and>
   subDestinations (js ''constructor'') \<noteq> Array [js ''constructor''] \<and>
   cityOf (subDestinations (js ''constructor'')) 0 = None \<and>
   dayHeading 1 (interpolate (cityOf (subDestinations (js ''constructor'')) 0))
     = js ''**Day 1 '' @ [emDash] @ js '' undefined**''"
proof -
  have low: "toLowerCase (js ''constructor'') = js ''constructor''"
    by (simp add: toLowerCase_def lowerUnit_def js_def)
  have m: "map_of regionToCities (js ''constructor'') = None"
    by (simp add: regionToCities_def js_def)
  have sub: "subDestinations (js ''constructor'') = ObjectConstructor"
    by (simp add: subDestinations_def propertyOf_def low m)
  have "showNat 1 = js ''1''"
    by (subst showNat.simps) (simp add: js_def)
  then have "dayHeading 1 (interpolate None) = js ''**Day 1 '' @ [emDash] @ js '' undefined**''"
    by (simp add: dayHeading_def interpolate_def js_def)
  then show ?thesis
    using m sub by (simp add: low)
qed

lemma trimEnd_append:
  assumes "ys \<noteq> []" and "\<not> isWhiteSpace (last ys)"
  shows "trimEnd (ys @ zs) = ys @ trimEnd zs"
proof -
  have "dropWhile isWhiteSpace (rev ys) = rev ys"
    using assms by (cases ys rule: rev_cases) auto
  then show ?thesis
    by (simp add: trimEnd_def dropWhile_append)
qed

lemma trimEnd_append2:
  assumes "ys \<noteq> []" and "\<not> isWhiteSpace (last ys)"
  shows "trimEnd (xs @ ys @ zs) = xs @ ys @ trimEnd zs"
  using trimEnd_append[of "xs @ ys" zs] assms by simp

text \<open>
  Claim C9.  The text of the itinerary starts with the destination line, then
  the companions line, then the interests line, a blank line and the line
  announcing the itinerary.  The companions line is empty unless companions
  are given, and the interests line is empty unless interests are given.
\<close>

theorem header_composition:
  "fullItinerary parseDate req =
     js ''Trip to **'' @ destination req @ js ''**  '' @ [LF] @
     friendsLine req @ [LF] @
     interestsLine req @ [LF] @
     [LF] @
     js ''Here'' @ [rsquo] @ js ''s your detailed itinerary:'' @
     trimEnd ([LF] @ join [LF] (itinerary parseDate req) @ [LF] @ js ''    '')
   \<and> (friendsLine req =
        (case friends req of
           None \<Rightarrow> []
         | Some fs \<Rightarrow> js ''Traveling with: '' @ join (js '', '') fs))
   \<and> (interestsLine req =
        (case interests req of
           None \<Rightarrow> []
         | Some xs \<Rightarrow> js ''Traveler interests: '' @ join (js '', '') xs))
   \<and> (friendsLine req \<noteq> [] \<longrightarrow> friends req \<noteq> None)
   \<and> (interestsLine req \<noteq> [] \<longrightarrow> interests req \<noteq> None)"
proof -
  let ?colon = "js ''s your detailed itinerary:''"
  let ?pre = "js ''Trip to **'' @ destination req @ js ''**  '' @ [LF] @
     friendsLine req @ [LF] @ interestsLine req @ [LF] @ [LF] @ js ''Here'' @ [rsquo]"
  let ?rest = "[LF] @ join [LF] (itinerary parseDate req) @ [LF] @ js ''    ''"
  have start: "trimStart ([LF] @ ?pre @ ?colon @ ?rest) = ?pre @ ?colon @ ?rest"
    by (simp add: trimStart_def LF_def js_def isWhiteSpace_def)
  have c: "?colon \<noteq> []" "\<not> isWhiteSpace (last ?colon)"
    by (simp_all add: js_def isWhiteSpace_def)
  have "fullItinerary parseDate req = trimEnd (trimStart ([LF] @ ?pre @ ?colon @ ?rest))"
    by (simp add: fullItinerary_def trim_def)
  also have "\<dots> = trimEnd (?pre @ ?colon @ ?rest)"
    by (simp only: start)
  also have "\<dots> = ?pre @ ?colon @ trimEnd ?rest"
    by (rule trimEnd_append2[OF c])
  finally have full: "fullItinerary parseDate req = ?pre @ ?colon @ trimEnd ?rest" .
  show ?thesis
    using full by (simp add: friendsLine_def interestsLine_def split: option.splits)
qed

theorem header_composition_witness:
  "friends groupTrip \<noteq> None \<and> interests groupTrip = None \<and>
   friendsLine groupTrip = js ''Traveling with: Ann, Bob'' \<and>
   interestsLine groupTrip = [] \<and>
   prefix (js ''Trip to **japan**  '' @ [LF] @ js ''Traveling with: Ann, Bob'' @ [LF] @ [LF] @ [LF] @
           js ''Here'' @ [rsquo] @ js ''s your detailed itinerary:'')
     (fullItinerary sampleDates groupTrip)"
proof -
  have f: "friends groupTrip = Some [js ''Ann'', js ''Bob'']" and i: "interests groupTrip = None"
    and d: "destination groupTrip = js ''japan''"
    by (simp_all add: groupTrip_def)
  show ?thesis
    using header_composition[of sampleDates groupTrip]
    by (simp add: f i d js_def)
qed

lemma itinerary_nth:
  assumes "i < length (itinerary parseDate req)"
  shows "itinerary parseDate req ! i = dayBlock (subDestinations (destination req)) i"
proof (cases "tripLength parseDate req")
  case None
  then have "itinerary parseDate req = []" by (simp add: itinerary_def itineraryLoop_NaN)
  with assms show ?thesis by simp
next
  case (Some x)
  then obtain n where x: "x = of_int n"
    by (auto simp: tripLength_def Math_ceil_def split: option.splits)
  have "itinerary parseDate req = map (dayBlock (subDestinations (destination req))) [0..<nat n]"
    using Some x by (simp add: itinerary_def itineraryLoop_eq)
  with assms show ?thesis by simp
qed

text \<open>
  Claim C3, amended.  The block of the 0-based day \<open>i\<close> starts with the heading
  \<open>**Day\<close> \<open>i + 1\<close>, dash, city, \<open>**\<close>, so the day numbers run 1, 2, 3, ... without a gap,
  and continues with five bullet lines that carry the fixed twelve-hour labels
  08:00 AM, 10:00 AM, 12:30 PM, 03:00 PM and 07:30 PM.
\<close>

theorem day_block_rendering:
  assumes "i < length (itinerary parseDate req)"
  shows "itinerary parseDate req ! i =
     js ''**Day '' @ showNat (i + 1) @ js '' '' @ [emDash] @ js '' '' @
       interpolate (cityOf (subDestinations (destination req)) i) @ js ''**'' @ js ''  '' @ [LF] @
     js ''- **08:00 AM:** Breakfast at '' @ exampleRestaurants ! ((i * 3) mod 6) @ js ''  '' @ [LF] @
     js ''- **10:00 AM:** '' @ exampleActivities ! ((i * 4) mod 7) @ js '' in '' @
       interpolate (cityOf (subDestinations (destination req)) i) @ js ''  '' @ [LF] @
     js ''- **12:30 PM:** Lunch at '' @ exampleRestaurants ! ((i * 3 + 1) mod 6) @ js ''  '' @ [LF] @
     js ''- **03:00 PM:** '' @ exampleActivities ! ((i * 2 + 1) mod 7) @ js '' nearby  '' @ [LF] @
     js ''- **07:30 PM:** Dinner at '' @ exampleRestaurants ! ((i * 3 + 2) mod 6) @ js ''  '' @ [LF]"
proof -
  have "length exampleRestaurants = 6" "length exampleActivities = 7"
    by (simp_all add: exampleRestaurants_def exampleActivities_def)
  then show ?thesis
    by (simp add: itinerary_nth[OF assms] dayBlock_def dayHeading_def Let_def)
qed

theorem day_block_rendering_witness:
  "0 < length (itinerary sampleDates japanTrip) \<and>
   prefix (js ''**Day 1 '' @ [emDash] @ js '' Tokyo**  '' @ [LF] @
           js ''- **08:00 AM:** Breakfast at Blue Bottle Coffee  '' @ [LF])
     (itinerary sampleDates japanTrip ! 0)"
proof -
  have len: "0 < length (itinerary sampleDates japanTrip)"
    by (simp add: japanTrip_itinerary)
  have one: "showNat (Suc 0) = js ''1''"
    by (subst showNat.simps) (simp add: js_def)
  have low: "toLowerCase (js ''japan'') = js ''japan''"
    by (simp add: toLowerCase_def lowerUnit_def js_def)
  have "map_of regionToCities (js ''japan'')
          = Some [js ''Tokyo'', js ''Kyoto'', js ''Osaka'', js ''Hiroshima'']"
    by (simp add: regionToCities_def js_def)
  then have city: "interpolate (cityOf (subDestinations (destination japanTrip)) 0) = js ''Tokyo''"
    by (simp add: japanTrip_def subDestinations_def low propertyOf_def interpolate_def)
  have r: "exampleRestaurants ! 0 = js ''Blue Bottle Coffee''"
    by (simp add: exampleRestaurants_def)
  show ?thesis
    using len
    by (simp add: day_block_rendering[OF len] one city r js_def)
qed

text \<open>
  Claim C3 as stated names the clock times 15:00 and 19:30; neither occurs in
  a generated day block.
\<close>

theorem clock_labels_counterexample:
  "itinerary sampleDates japanTrip \<noteq> [] \<and>
   \<not> sublist (js ''15:00'') (itinerary sampleDates japanTrip ! 0) \<and>
   \<not> sublist (js ''19:30'') (itinerary sampleDates japanTrip ! 0)"
proof -
  have len: "0 < length (itinerary sampleDates japanTrip)"
    by (simp add: japanTrip_itinerary)
  have blk: "itinerary sampleDates japanTrip ! 0 = dayBlock (subDestinations (js ''japan'')) 0"
    using itinerary_nth[OF len] by (simp add: japanTrip_def)
  have "\<not> sublist (js ''15:00'') (dayBlock (subDestinations (js ''japan'')) 0)"
    by code_simp
  moreover have "\<not> sublist (js ''19:30'') (dayBlock (subDestinations (js ''japan'')) 0)"
    by code_simp
  ultimately show ?thesis using len blk by auto
qed

section \<open>Properties of the matcher\<close>

subsection \<open>Facts about the matcher\<close>

lemma ms_Chr_Seq:
  "ms ic (Seq (Chr a) q) (b, r, c) =
     (case r of [] \<Rightarrow> [] | ch # r' \<Rightarrow>
        if canonicalize ic a = canonicalize ic ch then ms ic q (ch # b, r', c) else [])"
  by (cases r) simp_all

lemma ms_Star_nonempty: "ms ic (Star p) x \<noteq> []"
proof -
  obtain b r c where x: "x = (b, r, c)" by (cases x) auto
  show ?thesis unfolding x by (subst ms.simps(7)) simp
qed

lemma ms_Star_Cls:
  "ms ic (Star (Cls neg rs)) (b, r, c) =
     (case r of
        [] \<Rightarrow> [(b, r, c)]
      | ch # r' \<Rightarrow>
          if classMatches ic neg rs ch
          then ms ic (Star (Cls neg rs)) (ch # b, r', c) @ [(b, r, c)]
          else [(b, r, c)])"
  by (subst ms.simps(7)) (simp split: list.splits)

lemma hd_ms_Star_Cls:
  "hd (ms ic (Star (Cls neg rs)) (b, r, c)) =
     (rev (takeWhile (classMatches ic neg rs) r) @ b, dropWhile (classMatches ic neg rs) r, c)"
proof (induction r arbitrary: b)
  case Nil
  then show ?case by (subst ms_Star_Cls) simp
next
  case (Cons ch r)
  show ?case
    by (subst ms_Star_Cls) (simp add: Cons ms_Star_nonempty)
qed

text \<open>The first end state of a sequence.\<close>

lemma concat_map_Nil_iff:
  "concat (map f xs) = [] \<longleftrightarrow> (\<forall>x \<in> set xs. f x = [])"
  by (induction xs) auto

lemma hd_concat_map:
  assumes "concat (map f xs) \<noteq> []"
  shows "\<exists>ys x zs. xs = ys @ x # zs \<and> (\<forall>y \<in> set ys. f y = []) \<and> f x \<noteq> [] \<and>
           hd (concat (map f xs)) = hd (f x)"
  using assms
proof (induction xs)
  case Nil
  then show ?case by simp
next
  case (Cons a xs)
  show ?case
  proof (cases "f a = []")
    case True
    with Cons.prems have "concat (map f xs) \<noteq> []" by simp
    from Cons.IH[OF this] obtain ys x zs where
      "xs = ys @ x # zs" "\<forall>y \<in> set ys. f y = []" "f x \<noteq> []"
      "hd (concat (map f xs)) = hd (f x)" by blast
    with True have "a # xs = (a # ys) @ x # zs \<and> (\<forall>y \<in> set (a # ys). f y = []) \<and> f x \<noteq> [] \<and>
           hd (concat (map f (a # xs))) = hd (f x)" by simp
    then show ?thesis by blast
  next
    case False
    then have "a # xs = [] @ a # xs \<and> (\<forall>y \<in> set []. f y = []) \<and> f a \<noteq> [] \<and>
           hd (concat (map f (a # xs))) = hd (f a)" by simp
    then show ?thesis by blast
  qed
qed

lemma matchAt_in_ms:
  "matchAt ic p b r = Some e \<Longrightarrow> e \<in> set (ms ic p (b, r, None))"
  by (auto simp: matchAt_def split: list.splits)

lemma matchAt_None_iff: "matchAt ic p b r = None \<longleftrightarrow> ms ic p (b, r, None) = []"
  by (auto simp: matchAt_def split: list.splits)

lemma matchAt_Some_hd:
  "ms ic p (b, r, None) \<noteq> [] \<Longrightarrow> matchAt ic p b r = Some (hd (ms ic p (b, r, None)))"
  by (auto simp: matchAt_def split: list.splits)

lemma search_matchAt:
  "search ic p b r = Some (r0, e) \<Longrightarrow> \<exists>b0. matchAt ic p b0 r0 = Some e"
proof (induction r arbitrary: b)
  case Nil
  then show ?case by (auto split: option.splits)
next
  case (Cons ch r)
  show ?case
  proof (cases "matchAt ic p b (ch # r)")
    case None
    with Cons.prems have "search ic p (ch # b) r = Some (r0, e)" by simp
    then show ?thesis by (rule Cons.IH)
  next
    case (Some e')
    with Cons.prems have "r0 = ch # r" "e' = e" by simp_all
    with Some show ?thesis by blast
  qed
qed

lemma matchAllFrom_cong:
  "search ic p b r = search ic p b' r' \<Longrightarrow> matchAllFrom ic p b r = matchAllFrom ic p b' r'"
  by (subst matchAllFrom.simps, subst (2) matchAllFrom.simps) simp

lemma matchAllFrom_all:
  assumes step: "\<And>b r r0 b1 r1 c. search ic p b r = Some (r0, (b1, r1, c)) \<Longrightarrow>
                   Q \<lparr>matched = take (length r0 - length r1) r0, capture = c\<rparr>"
  shows "\<forall>m \<in> set (matchAllFrom ic p b r). Q m"
proof (induction "length r" arbitrary: b r rule: less_induct)
  case less
  show ?case
  proof (cases "search ic p b r")
    case None
    then show ?thesis by (subst matchAllFrom.simps) simp
  next
    case (Some x)
    obtain r0 b1 r1 c where x: "x = (r0, (b1, r1, c))" by (cases x) auto
    note s = Some[unfolded x]
    note len = search_length[OF s]
    have q: "Q \<lparr>matched = take (length r0 - length r1) r0, capture = c\<rparr>"
      by (rule step[OF s])
    show ?thesis
    proof (cases "length r1 < length r0")
      case True
      with len have "length r1 < length r" by simp
      then have "\<forall>m \<in> set (matchAllFrom ic p b1 r1). Q m"
        by (rule less)
      with q True s show ?thesis by (subst matchAllFrom.simps) simp
    next
      case False
      then have e: "take (length r0 - length r1) r0 = []" by simp
      show ?thesis
      proof (cases r1)
        case Nil
        with q e False s show ?thesis by (subst matchAllFrom.simps) simp
      next
        case (Cons ch r2)
        with len have "length r2 < length r" by simp
        then have "\<forall>m \<in> set (matchAllFrom ic p (ch # b1) r2). Q m"
          by (rule less)
        with q e False s Cons show ?thesis by (subst matchAllFrom.simps) simp
      qed
    qed
  qed
qed

lemma concat_map_concat:
  "concat (map f (concat (map g xs))) = concat (map (\<lambda>x. concat (map f (g x))) xs)"
  by (induction xs) simp_all

lemma ms_Seq_assoc:
  "ms ic (Seq p (Seq q s)) x = concat (map (ms ic s) (ms ic (Seq p q) x))"
proof -
  have "ms ic (Seq q s) = (\<lambda>y. concat (map (ms ic s) (ms ic q y)))"
    by (rule ext) simp
  then show ?thesis by (simp add: concat_map_concat)
qed

lemma notStar_iff: "classMatches False True [(42, 42)] ch \<longleftrightarrow> ch \<noteq> 42"
  by (auto simp: classMatches_def canonicalize_def)

lemma day_literal_start:
  assumes "(b1, r1, c1) \<in> set (ms False (Seq (lit (js ''**Day'')) q) (b, r, c))"
  shows "\<exists>r'. r = 42 # r' \<and> length r1 < length r"
proof -
  define L' where "L' = Seq (Chr 42) (Seq (Chr 68) (Seq (Chr 97) (Chr 121)))"
  have l: "lit (js ''**Day'') = Seq (Chr 42) L'"
    by (simp add: js_def L'_def)
  from assms obtain y where y: "y \<in> set (ms False (Seq (Chr 42) L') (b, r, c))"
    and e: "(b1, r1, c1) \<in> set (ms False q y)"
    unfolding l by (subst (asm) ms.simps(5)) auto
  from y obtain r' where r: "r = 42 # r'" and y': "y \<in> set (ms False L' (42 # b, r', c))"
    unfolding ms_Chr_Seq by (cases r) (auto simp: canonicalize_def split: if_splits)
  obtain by' ry cy where yy: "y = (by', ry, cy)" by (cases y) auto
  from y' have "length ry \<le> length r'" unfolding yy by (rule ms_length)
  moreover from e have "length r1 \<le> length ry" unfolding yy by (rule ms_length)
  ultimately show ?thesis using r by simp
qed

lemma heading_start:
  assumes "matchAt False headingRegex b r = Some (b1, r1, c1)"
  shows "\<exists>r'. r = 42 # r' \<and> length r1 < length r"
  using matchAt_in_ms[OF assms] unfolding headingRegex_def by (rule day_literal_start)

lemma title_start:
  assumes "matchAt False titleRegex b r = Some (b1, r1, c1)"
  shows "\<exists>r'. r = 42 # r' \<and> length r1 < length r"
  using matchAt_in_ms[OF assms] unfolding titleRegex_def by (rule day_literal_start)

lemma group_then_notStar:
  fixes DP :: regex
  defines "h \<equiv> ms False (Seq (Group DP) (Star (Cls True [(42, 42)])))"
  shows "(ms False DP w = [] \<longrightarrow> h w = []) \<and>
         (ms False DP w \<noteq> [] \<longrightarrow> h w \<noteq> [] \<and> (\<exists>g. hd (h w) = skipNotStar (hd (ms False DP w)) g))"
proof -
  obtain bw rw cw where w: "w = (bw, rw, cw)" by (cases w) auto
  show ?thesis
  proof (cases "ms False DP w")
    case Nil
    then show ?thesis by (simp add: h_def w)
  next
    case (Cons z zs)
    obtain b1 r1 c1 where z: "z = (b1, r1, c1)" by (cases z) auto
    let ?g = "Some (take (length rw - length r1) rw)"
    have "h w = ms False (Star (Cls True [(42, 42)])) (b1, r1, ?g) @
                concat (map (ms False (Star (Cls True [(42, 42)])))
                  (map (\<lambda>(b', r', c'). (b', r', Some (take (length rw - length r') rw))) zs))"
      using Cons by (simp add: h_def w z)
    then have "h w \<noteq> []" "hd (h w) = hd (ms False (Star (Cls True [(42, 42)])) (b1, r1, ?g))"
      by (simp_all add: ms_Star_nonempty)
    moreover have "hd (ms False (Star (Cls True [(42, 42)])) (b1, r1, ?g)) = skipNotStar z ?g"
      by (simp add: hd_ms_Star_Cls skipNotStar_def z notStar_iff[abs_def])
    ultimately show ?thesis using Cons by auto
  qed
qed

lemma title_of_heading:
  "(matchAt False headingRegex b r = None \<longrightarrow> matchAt False titleRegex b r = None) \<and>
   (\<forall>x. matchAt False headingRegex b r = Some x \<longrightarrow>
        (\<exists>g. matchAt False titleRegex b r = Some (skipNotStar x g)))"
proof -
  define L where "L = lit (js ''**Day'')"
  define WP where "WP = Plus whiteSpaceClass"
  define DP where "DP = Plus digitClass"
  define h where "h = ms False (Seq (Group DP) (Star (Cls True [(42, 42)])))"
  define Y where "Y = ms False (Seq L WP) (b, r, None)"
  have H: "ms False headingRegex (b, r, None) = concat (map (ms False DP) Y)"
    unfolding headingRegex_def L_def[symmetric] WP_def[symmetric] DP_def[symmetric] Y_def
    by (rule ms_Seq_assoc)
  have T: "ms False titleRegex (b, r, None) = concat (map h Y)"
    unfolding titleRegex_def L_def[symmetric] WP_def[symmetric] DP_def[symmetric] Y_def h_def
    by (rule ms_Seq_assoc)
  note gn = group_then_notStar[of DP, folded h_def]
  show ?thesis
  proof (cases "concat (map (ms False DP) Y) = []")
    case True
    then have "\<forall>w \<in> set Y. ms False DP w = []" by (simp add: concat_map_Nil_iff)
    with gn have "\<forall>w \<in> set Y. h w = []" by blast
    then have "concat (map h Y) = []" by (simp add: concat_map_Nil_iff)
    with T have "matchAt False titleRegex b r = None" by (simp add: matchAt_None_iff)
    moreover from True H have "matchAt False headingRegex b r = None"
      by (simp add: matchAt_None_iff)
    ultimately show ?thesis by simp
  next
    case False
    from hd_concat_map[OF False] obtain ys w zs where
      Y: "Y = ys @ w # zs" and ys: "\<forall>y \<in> set ys. ms False DP y = []"
      and w: "ms False DP w \<noteq> []"
      and hd: "hd (concat (map (ms False DP) Y)) = hd (ms False DP w)" by blast
    from ys gn have "\<forall>y \<in> set ys. h y = []" by blast
    then have "concat (map h ys) = []" by (simp add: concat_map_Nil_iff)
    then have c: "concat (map h Y) = h w @ concat (map h zs)" by (simp add: Y)
    from gn w obtain g where hw: "h w \<noteq> []" "hd (h w) = skipNotStar (hd (ms False DP w)) g"
      by blast
    from c hw have ne: "concat (map h Y) \<noteq> []"
      and "hd (concat (map h Y)) = skipNotStar (hd (ms False DP w)) g" by simp_all
    with hd have hdT: "hd (concat (map h Y)) = skipNotStar (hd (concat (map (ms False DP) Y))) g"
      by simp
    have mH: "matchAt False headingRegex b r = Some (hd (concat (map (ms False DP) Y)))"
      using False H matchAt_Some_hd[of False headingRegex b r] by simp
    have mT: "matchAt False titleRegex b r = Some (hd (concat (map h Y)))"
      using ne T matchAt_Some_hd[of False titleRegex b r] by simp
    show ?thesis using mH mT hdT by auto
  qed
qed

section \<open>Titles and day segments\<close>

lemma title_matchAt_None: "ch \<noteq> 42 \<Longrightarrow> matchAt False titleRegex b (ch # r) = None"
proof (cases "matchAt False titleRegex b (ch # r)")
  case None
  then show ?thesis .
next
  case (Some x)
  assume ch: "ch \<noteq> 42"
  obtain b1 r1 c1 where "x = (b1, r1, c1)" by (cases x) auto
  with Some title_start[of b "ch # r" b1 r1 c1] ch show ?thesis by simp
qed

lemma title_matchAt_Nil: "matchAt False titleRegex b [] = None"
proof (cases "matchAt False titleRegex b []")
  case None
  then show ?thesis .
next
  case (Some x)
  obtain b1 r1 c1 where "x = (b1, r1, c1)" by (cases x) auto
  with Some title_start[of b "[]" b1 r1 c1] show ?thesis by simp
qed

lemma search_skip_notStar:
  assumes "\<forall>ch \<in> set u. ch \<noteq> 42"
  shows "search False titleRegex b (u @ r) = search False titleRegex (rev u @ b) r"
  using assms
proof (induction u arbitrary: b)
  case Nil
  then show ?case by simp
next
  case (Cons ch u)
  then have "matchAt False titleRegex b (ch # u @ r) = None"
    by (simp add: title_matchAt_None)
  then have "search False titleRegex b ((ch # u) @ r) = search False titleRegex (ch # b) (u @ r)"
    by simp
  also have "\<dots> = search False titleRegex (rev u @ ch # b) r"
    using Cons.prems by (intro Cons.IH) simp
  finally show ?case by simp
qed

lemma split_title_count:
  "length (splitLoop False headingRegex piece b r)
     = Suc (length (matchAllFrom False titleRegex b r))"
proof (induction "length r" arbitrary: piece b r rule: less_induct)
  case less
  show ?case
  proof (cases r)
    case Nil
    have "splitLoop False headingRegex piece b [] = [rev piece]"
      by (subst splitLoop.simps) simp
    moreover have "matchAllFrom False titleRegex b [] = []"
      by (subst matchAllFrom.simps) (simp add: title_matchAt_Nil)
    ultimately show ?thesis using Nil by simp
  next
    case (Cons ch r')
    show ?thesis
    proof (cases "matchAt False headingRegex b r")
      case None
      then have tn: "matchAt False titleRegex b r = None"
        using title_of_heading[of b r] by simp
      have "splitLoop False headingRegex piece b r
              = splitLoop False headingRegex (ch # piece) (ch # b) r'"
        using None Cons by (subst splitLoop.simps) simp
      moreover have "search False titleRegex b r = search False titleRegex (ch # b) r'"
        using tn Cons by simp
      then have "matchAllFrom False titleRegex b r = matchAllFrom False titleRegex (ch # b) r'"
        by (rule matchAllFrom_cong)
      moreover have "length r' < length r" using Cons by simp
      ultimately show ?thesis using less[of r' "ch # piece" "ch # b"] by simp
    next
      case (Some x)
      obtain b1 r1 c1 where x: "x = (b1, r1, c1)" by (cases x) auto
      from heading_start[OF Some[unfolded x]] have lt: "length r1 < length r" by blast
      define u where "u = takeWhile (\<lambda>ch. ch \<noteq> 42) r1"
      define r2 where "r2 = dropWhile (\<lambda>ch. ch \<noteq> 42) r1"
      have r1: "r1 = u @ r2" by (simp add: u_def r2_def)
      have u: "\<forall>ch \<in> set u. ch \<noteq> 42" unfolding u_def by (auto dest: set_takeWhileD)
      from title_of_heading[of b r] Some obtain g where
        t: "matchAt False titleRegex b r = Some (rev u @ b1, r2, g)"
        by (auto simp: x skipNotStar_def u_def r2_def)
      have sp: "splitLoop False headingRegex piece b r
              = rev piece # splitLoop False headingRegex [] b1 r1"
        using Some x lt Cons by (subst splitLoop.simps) simp
      have s: "search False titleRegex b r = Some (r, (rev u @ b1, r2, g))"
        using t Cons by simp
      have lt2: "length r2 < length r" using lt r1 by simp
      have ma: "matchAllFrom False titleRegex b r
              = \<lparr>matched = take (length r - length r2) r, capture = g\<rparr> #
                matchAllFrom False titleRegex (rev u @ b1) r2"
        using s lt2 by (subst matchAllFrom.simps) simp
      have "matchAllFrom False titleRegex b1 r1 = matchAllFrom False titleRegex (rev u @ b1) r2"
        unfolding r1 by (rule matchAllFrom_cong) (rule search_skip_notStar[OF u])
      with sp ma less[OF lt, of "[]" b1] show ?thesis by simp
    qed
  qed
qed

lemma trim_nonempty:
  assumes "\<not> isWhiteSpace x"
  shows "trim (x # xs) \<noteq> []"
proof -
  have "trimStart (x # xs) = x # xs" using assms by (simp add: trimStart_def)
  moreover have "dropWhile isWhiteSpace (rev xs @ [x]) \<noteq> []"
    using assms by (simp add: dropWhile_append)
  ultimately show ?thesis by (simp add: trim_def trimEnd_def)
qed

lemma title_matches_start:
  "\<forall>m \<in> set (matchAllFrom False titleRegex b r). \<exists>t. matched m = 42 # t"
proof (rule matchAllFrom_all)
  fix b r r0 b1 r1 c
  assume "search False titleRegex b r = Some (r0, (b1, r1, c))"
  from search_matchAt[OF this] obtain b0 where "matchAt False titleRegex b0 r0 = Some (b1, r1, c)"
    by blast
  from title_start[OF this] obtain r' where "r0 = 42 # r'" "length r1 < length r0" by blast
  then have "take (length r0 - length r1) r0 = 42 # take (length r0 - length r1 - 1) r'"
    by (cases "length r0 - length r1") simp_all
  then show "\<exists>t. matched \<lparr>matched = take (length r0 - length r1) r0, capture = c\<rparr> = 42 # t"
    by simp
qed

lemma dayTitles_nonempty: "t \<in> set (dayTitles s) \<Longrightarrow> t \<noteq> []"
proof -
  assume "t \<in> set (dayTitles s)"
  then obtain m where m: "m \<in> set (matchAllFrom False titleRegex [] s)" and t: "t = trim (matched m)"
    by (auto simp: dayTitles_def matchAll_def)
  from title_matches_start m obtain u where "matched m = 42 # u" by blast
  then show ?thesis unfolding t by (simp add: trim_nonempty isWhiteSpace_def)
qed

lemma dayTitles_length: "length (dayTitles s) = length (dayBlocks s)"
proof (cases "s = []")
  case True
  have "matchAt False headingRegex [] [] = None"
  proof (cases "matchAt False headingRegex [] []")
    case (Some x)
    obtain b1 r1 c1 where "x = (b1, r1, c1)" by (cases x) auto
    with Some heading_start[of "[]" "[]" b1 r1 c1] show ?thesis by simp
  qed simp
  moreover have "matchAllFrom False titleRegex [] [] = []"
    by (subst matchAllFrom.simps) (simp add: title_matchAt_Nil)
  ultimately show ?thesis using True
    by (simp add: dayTitles_def dayBlocks_def split_def matchAll_def)
next
  case False
  then show ?thesis
    by (simp add: dayTitles_def dayBlocks_def split_def matchAll_def split_title_count)
qed

text \<open>
  Claim C10.  For every text the title pattern finds as many titles as the
  split on the heading pattern leaves day segments, and every title is a
  non-empty string; so for every segment index the title is defined and the
  fallback label \<open>Day index+1\<close> is not used.
\<close>

theorem titles_match_blocks:
  "length (dayTitles s) = length (dayBlocks s) \<and>
   (\<forall>index < length (dayBlocks s).
      dayTitles s ! index \<noteq> [] \<and> titleOr (dayTitles s) index = dayTitles s ! index)"
proof -
  have len: "length (dayTitles s) = length (dayBlocks s)" by (rule dayTitles_length)
  have "dayTitles s ! index \<noteq> []" if "index < length (dayBlocks s)" for index
    using that len dayTitles_nonempty[of "dayTitles s ! index" s] by simp
  then show ?thesis using len by (simp add: titleOr_def)
qed

section \<open>The preposition patterns, characterised\<close>

lemma range_ci_other:
  assumes "hi < 65 \<or> 122 < lo \<or> (90 < lo \<and> hi < 97)"
  shows "(\<exists>a. lo \<le> a \<and> a \<le> hi \<and> upperCase a = upperCase ch) \<longleftrightarrow> lo \<le> ch \<and> ch \<le> hi"
proof
  assume "\<exists>a. lo \<le> a \<and> a \<le> hi \<and> upperCase a = upperCase ch"
  then obtain a where a: "lo \<le> a" "a \<le> hi" "upperCase a = upperCase ch" by blast
  have na: "upperCase a = a" "\<not> (65 \<le> a \<and> a \<le> 90)"
    using assms a(1,2) unfolding upperCase_def by auto
  show "lo \<le> ch \<and> ch \<le> hi"
  proof (cases "97 \<le> ch \<and> ch \<le> 122")
    case True
    then have "upperCase ch = ch - 32" "65 \<le> ch - 32" "ch - 32 \<le> 90"
      by (auto simp: upperCase_def)
    with a(3) na show ?thesis by simp
  next
    case False
    then have "upperCase ch = ch" by (auto simp: upperCase_def)
    with a na show ?thesis by simp
  qed
next
  assume "lo \<le> ch \<and> ch \<le> hi"
  then show "\<exists>a. lo \<le> a \<and> a \<le> hi \<and> upperCase a = upperCase ch" by blast
qed

lemma range_ci_upper:
  "(\<exists>a. 65 \<le> a \<and> a \<le> 90 \<and> upperCase a = upperCase ch) \<longleftrightarrow> isLetter ch"
proof
  assume "\<exists>a. 65 \<le> a \<and> a \<le> 90 \<and> upperCase a = upperCase ch"
  then obtain a where a: "65 \<le> a" "a \<le> 90" "upperCase a = upperCase ch" by blast
  then have "upperCase a = a" by (simp add: upperCase_def)
  with a show "isLetter ch" unfolding upperCase_def isLetter_def
    by (cases "97 \<le> ch \<and> ch \<le> 122") auto
next
  assume l: "isLetter ch"
  have "65 \<le> upperCase ch \<and> upperCase ch \<le> 90 \<and> upperCase (upperCase ch) = upperCase ch"
    using l unfolding upperCase_def isLetter_def by auto
  then show "\<exists>a. 65 \<le> a \<and> a \<le> 90 \<and> upperCase a = upperCase ch" by blast
qed

lemma range_ci_lower:
  "(\<exists>a. 97 \<le> a \<and> a \<le> 122 \<and> upperCase a = upperCase ch) \<longleftrightarrow> isLetter ch"
proof
  assume "\<exists>a. 97 \<le> a \<and> a \<le> 122 \<and> upperCase a = upperCase ch"
  then obtain a where a: "97 \<le> a" "a \<le> 122" "upperCase a = upperCase ch" by blast
  then have "upperCase a = a - 32" by (simp add: upperCase_def)
  with a show "isLetter ch" unfolding upperCase_def isLetter_def
    by (cases "97 \<le> ch \<and> ch \<le> 122") auto
next
  assume l: "isLetter ch"
  define a where "a = (if ch \<le> 90 then ch + 32 else ch)"
  have "97 \<le> a \<and> a \<le> 122 \<and> upperCase a = upperCase ch"
    using l unfolding upperCase_def isLetter_def a_def by auto
  then show "\<exists>a. 97 \<le> a \<and> a \<le> 122 \<and> upperCase a = upperCase ch" by blast
qed

lemma list_ex_upt: "list_ex P [lo..<Suc hi] \<longleftrightarrow> (\<exists>a. lo \<le> a \<and> a \<le> hi \<and> P a)"
  by (auto simp: list_ex_iff)

lemma canonicalize_True: "canonicalize True = upperCase"
  by (rule ext) (simp add: canonicalize_def upperCase_def)

lemma classMatches_ci:
  "classMatches True neg rs ch \<longleftrightarrow>
     (list_ex (\<lambda>(lo, hi). \<exists>a. lo \<le> a \<and> a \<le> hi \<and> upperCase a = upperCase ch) rs \<noteq> neg)"
  unfolding classMatches_def Let_def list_ex_upt canonicalize_True ..

lemma le_and_eq: "(n \<le> (ch::nat) \<and> ch = n) \<longleftrightarrow> ch = n"
  by auto

lemma two_range: "(8232 \<le> (ch::nat) \<and> ch \<le> 8233) \<longleftrightarrow> ch = 8232 \<or> ch = 8233"
  by arith

lemma whiteSpace_ci:
  "classMatches True False
     [(9, 13), (32, 32), (160, 160), (5760, 5760), (8192, 8202), (8232, 8233),
      (8239, 8239), (8287, 8287), (12288, 12288), (65279, 65279)] ch \<longleftrightarrow> isWhiteSpace ch"
  unfolding classMatches_ci by (simp add: range_ci_other isWhiteSpace_def le_and_eq two_range)

lemma upper_ci: "classMatches True False [(65, 90)] ch \<longleftrightarrow> isLetter ch"
  unfolding classMatches_ci by (simp add: range_ci_upper)

lemma phrase_ci:
  "classMatches True False
     [(48, 57), (65, 90), (95, 95), (97, 122), (39, 39), (38, 38), (45, 45), (32, 32)] ch
   \<longleftrightarrow> isPhraseChar ch"
  unfolding classMatches_ci
  by (simp add: range_ci_other range_ci_upper range_ci_lower isPhraseChar_def isWordChar_def
        isLetter_def le_and_eq) blast

lemma startsWithWord_simps:
  "startsWithWord [] r"
  "\<not> startsWithWord (a # w) []"
  "startsWithWord (a # w) (ch # r) \<longleftrightarrow> upperCase a = upperCase ch \<and> startsWithWord w r"
  by (auto simp: startsWithWord_def)

lemma ms_lit:
  "ms True (lit w) (b, r, c) =
     (if startsWithWord w r then [(rev (take (length w) r) @ b, drop (length w) r, c)] else [])"
proof (induction w arbitrary: b r rule: lit.induct)
  case 1
  show ?case by (simp add: startsWithWord_simps)
next
  case (2 a)
  show ?case
    by (cases r) (simp_all add: startsWithWord_simps canonicalize_True)
next
  case (3 a v va)
  show ?case
  proof (cases r)
    case Nil
    then show ?thesis by (simp add: startsWithWord_simps)
  next
    case (Cons ch r')
    have "ms True (lit (a # v # va)) (b, r, c) =
            (if upperCase a = upperCase ch then ms True (lit (v # va)) (ch # b, r', c) else [])"
      unfolding lit.simps(3) ms_Chr_Seq Cons by (simp add: canonicalize_True)
    then show ?thesis
      unfolding "3.IH" Cons by (simp add: startsWithWord_simps)
  qed
qed

lemma ms_alts:
  "ws \<noteq> [] \<Longrightarrow> ms ic (alts ws) x = concat (map (\<lambda>w. ms ic (lit w) x) ws)"
  by (induction ws rule: alts.induct) simp_all

lemma concat_Star_whiteSpace:
  assumes fail: "\<And>b ch r c. isWhiteSpace ch \<Longrightarrow> f (b, ch # r, c) = []"
  shows "concat (map f (ms True (Star whiteSpaceClass) (b, r, c)))
           = f (rev (takeWhile isWhiteSpace r) @ b, dropWhile isWhiteSpace r, c)"
proof (induction r arbitrary: b)
  case Nil
  show ?case unfolding whiteSpaceClass_def by (subst ms_Star_Cls) simp
next
  case (Cons ch r)
  show ?case
  proof (cases "isWhiteSpace ch")
    case True
    have "ms True (Star whiteSpaceClass) (b, ch # r, c)
            = ms True (Star whiteSpaceClass) (ch # b, r, c) @ [(b, ch # r, c)]"
      unfolding whiteSpaceClass_def by (subst ms_Star_Cls) (simp add: whiteSpace_ci True)
    then show ?thesis using True by (simp add: Cons fail)
  next
    case False
    have "ms True (Star whiteSpaceClass) (b, ch # r, c) = [(b, ch # r, c)]"
      unfolding whiteSpaceClass_def by (subst ms_Star_Cls) (simp add: whiteSpace_ci False)
    then show ?thesis using False by simp
  qed
qed

lemma ms_Plus_whiteSpace:
  assumes fail: "\<And>b ch r c. isWhiteSpace ch \<Longrightarrow> ms True q (b, ch # r, c) = []"
  shows "ms True (Seq (Plus whiteSpaceClass) q) (b, r, c) =
           (if takeWhile isWhiteSpace r = [] then []
            else ms True q (rev (takeWhile isWhiteSpace r) @ b, dropWhile isWhiteSpace r, c))"
proof (cases r)
  case Nil
  then show ?thesis by (simp add: whiteSpaceClass_def)
next
  case (Cons ch r')
  show ?thesis
  proof (cases "isWhiteSpace ch")
    case True
    then have w: "ms True whiteSpaceClass (b, r, c) = [(ch # b, r', c)]"
      by (simp add: whiteSpaceClass_def whiteSpace_ci Cons)
    have "ms True (Seq (Plus whiteSpaceClass) q) (b, r, c)
            = concat (map (ms True q) (ms True (Star whiteSpaceClass) (ch # b, r', c)))"
      by (simp add: w)
    also have "\<dots> = ms True q (rev (takeWhile isWhiteSpace r') @ ch # b,
                                  dropWhile isWhiteSpace r', c)"
      by (rule concat_Star_whiteSpace) (rule fail)
    finally show ?thesis using True Cons by simp
  next
    case False
    then have "ms True whiteSpaceClass (b, r, c) = []"
      by (simp add: whiteSpaceClass_def whiteSpace_ci Cons)
    then show ?thesis using False Cons by simp
  qed
qed

lemma ms_phraseGroup:
  "ms True phraseGroup (b, r, c) =
     (case r of
        [] \<Rightarrow> []
      | l # r2 \<Rightarrow>
          if isLetter l then
            (case r2 of
               [] \<Rightarrow> []
             | p # r3 \<Rightarrow>
                 if isPhraseChar p
                 then map (\<lambda>(b', r', c'). (b', r', Some (take (length r - length r') r)))
                        (ms True (Star phraseClass) (p # l # b, r3, c))
                 else [])
          else [])"
  unfolding phraseGroup_def
  by (simp add: upper_ci phrase_ci phraseClass_def split: list.splits)

lemma phraseClass_fun: "classMatches True False
     [(48, 57), (65, 90), (95, 95), (97, 122), (39, 39), (38, 38), (45, 45), (32, 32)] = isPhraseChar"
  by (rule ext) (rule phrase_ci)

lemma hd_Star_phrase:
  "hd (ms True (Star phraseClass) (b, r, c))
     = (rev (takeWhile isPhraseChar r) @ b, dropWhile isPhraseChar r, c)"
  unfolding phraseClass_def hd_ms_Star_Cls phraseClass_fun ..

lemma whiteSpace_not_letter: "isWhiteSpace ch \<Longrightarrow> \<not> isLetter ch"
  by (auto simp: isWhiteSpace_def isLetter_def)

lemma phraseGroup_fails_on_whiteSpace:
  "isWhiteSpace ch \<Longrightarrow> ms True phraseGroup (b, ch # r, c) = []"
  by (simp add: ms_phraseGroup whiteSpace_not_letter)

lemma phrase_after_whiteSpace:
  defines "K \<equiv> \<lambda>b r c. ms True afterWord (b, r, c)"
  shows "(spec_phraseAfter r = None \<longrightarrow> K b r c = []) \<and>
         (\<forall>ph rest. spec_phraseAfter r = Some (ph, rest) \<longrightarrow>
            K b r c \<noteq> [] \<and>
            hd (K b r c) = (rev (take (length r - length rest) r) @ b, rest, Some ph))"
proof -
  define tw where "tw = takeWhile isWhiteSpace r"
  define dw where "dw = dropWhile isWhiteSpace r"
  have r: "r = tw @ dw" by (simp add: tw_def dw_def)
  have K: "K b r c = (if tw = [] then [] else ms True phraseGroup (rev tw @ b, dw, c))"
    unfolding K_def tw_def dw_def afterWord_def
    by (rule ms_Plus_whiteSpace) (rule phraseGroup_fails_on_whiteSpace)
  show ?thesis
  proof (cases "spec_phraseAfter r")
    case None
    then have "tw = [] \<or> ms True phraseGroup (rev tw @ b, dw, c) = []"
      unfolding spec_phraseAfter_def tw_def[symmetric] dw_def[symmetric]
      by (auto simp: ms_phraseGroup split: if_splits list.splits)
    with None K show ?thesis by auto
  next
    case (Some x)
    obtain ph rest where x: "x = (ph, rest)" by (cases x) auto
    from Some[unfolded x] obtain l r2 where
      tw: "tw \<noteq> []" and dw: "dw = l # r2" and l: "isLetter l"
      and ne: "takeWhile isPhraseChar r2 \<noteq> []"
      and ph: "ph = l # takeWhile isPhraseChar r2" and rest: "rest = dropWhile isPhraseChar r2"
      unfolding spec_phraseAfter_def tw_def[symmetric] dw_def[symmetric]
      by (auto split: if_splits list.splits)
    from ne obtain p r3 where r2: "r2 = p # r3" and p: "isPhraseChar p"
      by (cases r2) (auto split: if_splits)
    define t3 where "t3 = takeWhile isPhraseChar r3"
    have ph': "ph = l # p # t3" using ph r2 p by (simp add: t3_def)
    have rest': "rest = dropWhile isPhraseChar r3" using rest r2 p by simp
    have r3: "r3 = t3 @ rest" by (simp add: t3_def rest')
    let ?S = "ms True (Star phraseClass) (p # l # rev tw @ b, r3, c)"
    have Sne: "?S \<noteq> []" by (rule ms_Star_nonempty)
    have hdS: "hd ?S = (rev t3 @ p # l # rev tw @ b, rest, c)"
      by (simp add: hd_Star_phrase t3_def rest')
    have G: "ms True phraseGroup (rev tw @ b, dw, c)
               = map (\<lambda>(b', r', c'). (b', r', Some (take (length dw - length r') dw))) ?S"
      by (simp add: ms_phraseGroup dw r2 l p)
    have cap: "take (length dw - length rest) dw = ph"
      by (simp add: dw r2 ph' r3)
    have bef: "take (length r - length rest) r = tw @ ph"
      by (simp add: r dw r2 ph' r3)
    from G Sne have "ms True phraseGroup (rev tw @ b, dw, c) \<noteq> []" by simp
    moreover from G Sne hdS cap
    have "hd (ms True phraseGroup (rev tw @ b, dw, c)) = (rev t3 @ p # l # rev tw @ b, rest, Some ph)"
      by (simp add: hd_map)
    ultimately have "K b r c \<noteq> [] \<and> hd (K b r c) = (rev (take (length r - length rest) r) @ b, rest, Some ph)"
      using K tw bef ph' by simp
    with Some x show ?thesis by simp
  qed
qed

lemma prepositionPhrase_unfold:
  "prepositionPhrase words =
     Seq WordB (Seq (alts words) afterWord)"
  by (simp add: prepositionPhrase_def)

lemma ms_prepositionPhrase:
  assumes "words \<noteq> []"
  shows "ms True (prepositionPhrase words) (b, r, c) =
     (if wordAt b \<noteq> wordAt r
      then concat (map (\<lambda>w. if startsWithWord w r
                              then ms True afterWord
                                     (rev (take (length w) r) @ b, drop (length w) r, c)
                              else []) words)
      else [])"
proof -
  let ?K = "ms True afterWord"
  have "ms True (Seq (alts words) afterWord) (b, r, c)
          = concat (map ?K (concat (map (\<lambda>w. ms True (lit w) (b, r, c)) words)))"
    by (subst ms.simps(5)) (simp only: ms_alts[OF assms])
  also have "\<dots> = concat (map (\<lambda>w. concat (map ?K (ms True (lit w) (b, r, c)))) words)"
    by (rule concat_map_concat)
  also have "\<dots> = concat (map (\<lambda>w. if startsWithWord w r
                              then ?K (rev (take (length w) r) @ b, drop (length w) r, c)
                              else []) words)"
  proof -
    have "(\<lambda>w. concat (map ?K (ms True (lit w) (b, r, c))))
            = (\<lambda>w. if startsWithWord w r
                    then ?K (rev (take (length w) r) @ b, drop (length w) r, c)
                    else [])"
      by (rule ext) (simp add: ms_lit)
    then show ?thesis by simp
  qed
  finally show ?thesis
    unfolding prepositionPhrase_unfold by (subst ms.simps(5)) simp
qed

lemma spec_phraseAfter_Nil: "spec_phraseAfter [] = None"
  by (simp add: spec_phraseAfter_def)

lemma spec_firstWord_Nil: "spec_firstWord words [] = None"
  by (induction words) (simp_all add: spec_phraseAfter_Nil)

lemma words_first:
  fixes b r c
  defines "F \<equiv> \<lambda>w. if startsWithWord w r
                      then ms True afterWord
                             (rev (take (length w) r) @ b, drop (length w) r, c)
                      else []"
  shows "(spec_firstWord words r = None \<longrightarrow> concat (map F words) = []) \<and>
         (\<forall>ph rest. spec_firstWord words r = Some (ph, rest) \<longrightarrow>
            concat (map F words) \<noteq> [] \<and>
            hd (concat (map F words)) = (rev (take (length r - length rest) r) @ b, rest, Some ph))"
proof (induction words)
  case Nil
  show ?case by simp
next
  case (Cons w ws)
  show ?case
  proof (cases "if startsWithWord w r then spec_phraseAfter (drop (length w) r) else None")
    case None
    then have "F w = []"
      using phrase_after_whiteSpace[of "drop (length w) r" "rev (take (length w) r) @ b" c]
      by (auto simp: F_def split: if_splits)
    moreover from None have "spec_firstWord (w # ws) r = spec_firstWord ws r" by simp
    ultimately show ?thesis using Cons by simp
  next
    case (Some x)
    obtain ph rest where x: "x = (ph, rest)" by (cases x) auto
    from Some x have sw: "startsWithWord w r"
      and pa: "spec_phraseAfter (drop (length w) r) = Some (ph, rest)"
      by (simp_all split: if_splits)
    from sw have n: "length w \<le> length r" by (simp add: startsWithWord_def)
    from spec_phraseAfter_length[OF pa] have lr: "length rest < length r - length w" by simp
    from pa phrase_after_whiteSpace[of "drop (length w) r" "rev (take (length w) r) @ b" c]
    have Fne: "F w \<noteq> []"
      and hdF: "hd (F w) = (rev (take (length (drop (length w) r) - length rest)
                                   (drop (length w) r)) @ rev (take (length w) r) @ b,
                            rest, Some ph)"
      using sw by (simp_all add: F_def)
    have "length r - length rest = length w + (length r - length w - length rest)"
      using n lr by simp
    then have "take (length r - length rest) r
                 = take (length w) r @ take (length r - length w - length rest) (drop (length w) r)"
      by (simp only: take_add)
    with hdF have hdF': "hd (F w) = (rev (take (length r - length rest) r) @ b, rest, Some ph)"
      by simp
    from Some x have "spec_firstWord (w # ws) r = Some (ph, rest)" by simp
    with Fne hdF' show ?thesis by simp
  qed
qed

lemma matchAt_prepositionPhrase:
  assumes "words \<noteq> []"
  shows "matchAt True (prepositionPhrase words) b r =
     (case spec_occurrenceAt words b r of
        None \<Rightarrow> None
      | Some (ph, rest) \<Rightarrow> Some (rev (take (length r - length rest) r) @ b, rest, Some ph))"
proof (cases "wordAt b \<noteq> wordAt r")
  case False
  then show ?thesis
    by (simp add: matchAt_def ms_prepositionPhrase[OF assms] spec_occurrenceAt_def)
next
  case True
  define F where "F = (\<lambda>w. if startsWithWord w r
                      then ms True afterWord
                             (rev (take (length w) r) @ b, drop (length w) r, None)
                      else [])"
  have m: "ms True (prepositionPhrase words) (b, r, None) = concat (map F words)"
    using True by (simp add: ms_prepositionPhrase[OF assms] F_def)
  note wf = words_first[of words r b None, folded F_def]
  show ?thesis
  proof (cases "spec_firstWord words r")
    case None
    with wf have "concat (map F words) = []" by blast
    with m have "matchAt True (prepositionPhrase words) b r = None"
      by (simp add: matchAt_None_iff)
    with None True show ?thesis by (simp add: spec_occurrenceAt_def)
  next
    case (Some x)
    obtain ph rest where x: "x = (ph, rest)" by (cases x) auto
    from wf Some x have "concat (map F words) \<noteq> []"
      and "hd (concat (map F words)) = (rev (take (length r - length rest) r) @ b, rest, Some ph)"
      by blast+
    with m have ne: "ms True (prepositionPhrase words) (b, r, None) \<noteq> []"
      and hd: "hd (ms True (prepositionPhrase words) (b, r, None))
                 = (rev (take (length r - length rest) r) @ b, rest, Some ph)"
      by simp_all
    from matchAt_Some_hd[OF ne] hd Some x True show ?thesis
      by (simp add: spec_occurrenceAt_def)
  qed
qed

lemma search_prepositionPhrase:
  assumes "words \<noteq> []"
  shows "(spec_nextOccurrence words b r = None \<longrightarrow>
            search True (prepositionPhrase words) b r = None) \<and>
         (\<forall>ph b1 r1. spec_nextOccurrence words b r = Some (ph, b1, r1) \<longrightarrow>
            (\<exists>r0. search True (prepositionPhrase words) b r = Some (r0, (b1, r1, Some ph)) \<and>
                  length r1 < length r0))"
proof (induction r arbitrary: b)
  case Nil
  have "spec_occurrenceAt words b [] = None"
    by (simp add: spec_occurrenceAt_def spec_firstWord_Nil)
  then show ?case by (simp add: matchAt_prepositionPhrase[OF assms])
next
  case (Cons ch r)
  show ?case
  proof (cases "spec_occurrenceAt words b (ch # r)")
    case None
    then have "search True (prepositionPhrase words) b (ch # r)
                 = search True (prepositionPhrase words) (ch # b) r"
      by (simp add: matchAt_prepositionPhrase[OF assms])
    moreover from None have "spec_nextOccurrence words b (ch # r)
                 = spec_nextOccurrence words (ch # b) r" by simp
    ultimately show ?thesis using Cons[of "ch # b"] by simp
  next
    case (Some x)
    obtain ph rest where x: "x = (ph, rest)" by (cases x) auto
    from Some x have "spec_firstWord words (ch # r) = Some (ph, rest)"
      by (simp add: spec_occurrenceAt_def split: if_splits)
    from spec_firstWord_length[OF this] have "length rest < length (ch # r)" .
    with Some x show ?thesis
      by (simp add: matchAt_prepositionPhrase[OF assms])
  qed
qed

lemma matchAllFrom_prepositionPhrase:
  assumes "words \<noteq> []"
  shows "mapE trimmedCapture (matchAllFrom True (prepositionPhrase words) b r)
           = Inr (spec_places words b r)"
proof (induction "length r" arbitrary: b r rule: less_induct)
  case less
  note sp = search_prepositionPhrase[OF assms, of b r]
  show ?case
  proof (cases "spec_nextOccurrence words b r")
    case None
    with sp have "search True (prepositionPhrase words) b r = None" by simp
    then have "matchAllFrom True (prepositionPhrase words) b r = []"
      by (subst matchAllFrom.simps) simp
    moreover from None have "spec_places words b r = []"
      by (subst spec_places.simps) simp
    ultimately show ?thesis by simp
  next
    case (Some x)
    obtain ph b1 r1 where x: "x = (ph, b1, r1)" by (cases x) auto
    from sp Some x obtain r0 where
      s: "search True (prepositionPhrase words) b r = Some (r0, (b1, r1, Some ph))"
      and lt: "length r1 < length r0" by auto
    have m: "matchAllFrom True (prepositionPhrase words) b r
           = \<lparr>matched = take (length r0 - length r1) r0, capture = Some ph\<rparr> #
             matchAllFrom True (prepositionPhrase words) b1 r1"
      using s lt by (subst matchAllFrom.simps) simp
    from spec_nextOccurrence_length[OF Some[unfolded x]] have "length r1 < length r" .
    from less[OF this] have ih: "mapE trimmedCapture (matchAllFrom True (prepositionPhrase words) b1 r1)
           = Inr (spec_places words b1 r1)" .
    have "spec_places words b r = trim ph # spec_places words b1 r1"
      using Some x by (subst spec_places.simps) simp
    with m ih show ?thesis by (simp add: trimmedCapture_def)
  qed
qed

lemma places_spec:
  "places block =
     Inr (spec_places [js ''at'', js ''in'', js ''around'', js ''near'', js ''visit'',
                       js ''explore'', js ''lunch at'', js ''dinner at''] [] block)"
  unfolding places_def matchAll_def locationRegex_def
  by (rule matchAllFrom_prepositionPhrase) simp

lemma localContext_spec:
  "localContext inferred block =
     Inr (spec_localContext [js ''in'', js ''around'', js ''near'', js ''visit'', js ''explore'']
            inferred block)"
proof -
  let ?ws = "[js ''in'', js ''around'', js ''near'', js ''visit'', js ''explore'']"
  have ne: "?ws \<noteq> []" by simp
  note sp = search_prepositionPhrase[OF ne, of "[]" block]
  show ?thesis
  proof (cases "spec_nextOccurrence ?ws [] block")
    case None
    with sp have "search True (prepositionPhrase ?ws) [] block = None" by simp
    with None show ?thesis
      by (simp add: localContext_def firstMatch_def contextRegex_def spec_localContext_def)
  next
    case (Some x)
    obtain ph b1 r1 where x: "x = (ph, b1, r1)" by (cases x) auto
    from sp Some x obtain r0 where
      "search True (prepositionPhrase ?ws) [] block = Some (r0, (b1, r1, Some ph))" by auto
    with Some x show ?thesis
      by (simp add: localContext_def firstMatch_def contextRegex_def spec_localContext_def
            trimmedCapture_def)
  qed
qed

section \<open>Properties of the map-link builder\<close>

lemmas eval_simps = js_def matchAt_def ms.simps(7) matchAllFrom.simps splitLoop.simps
  classMatches_def canonicalize_def wordAt_def isWordChar_def whiteSpaceClass_def digitClass_def
  phraseClass_def afterWord_def phraseGroup_def trim_def trimStart_def trimEnd_def isWhiteSpace_def

lemma forEachBlock_Inr:
  "forEachBlock f k bs = Inr ls \<Longrightarrow>
     length ls = length bs \<and> (\<forall>i < length bs. f (k + i) (bs ! i) = Inr (ls ! i))"
proof (induction bs arbitrary: k ls)
  case Nil
  then show ?case by simp
next
  case (Cons blk bs)
  from Cons.prems obtain s ss where s: "f k blk = Inr s"
    and ss: "forEachBlock f (k + 1) bs = Inr ss" and ls: "ls = s # ss"
    by (auto split: sum.splits)
  from Cons.IH[OF ss] have len: "length ss = length bs"
    and nth: "\<forall>i < length bs. f (k + 1 + i) (bs ! i) = Inr (ss ! i)" by simp_all
  have "f (k + i) ((blk # bs) ! i) = Inr (ls ! i)" if "i < length (blk # bs)" for i
  proof (cases i)
    case 0
    with s ls show ?thesis by simp
  next
    case (Suc j)
    with that nth ls show ?thesis by simp
  qed
  with len ls show ?case by simp
qed

lemma mapE_Inr_nth:
  "mapE f xs = Inr ys \<Longrightarrow>
     length ys = length xs \<and> (\<forall>j < length xs. f (xs ! j) = Inr (ys ! j))"
proof (induction xs arbitrary: ys)
  case Nil
  then show ?case by simp
next
  case (Cons x xs)
  from Cons.prems obtain y ys' where y: "f x = Inr y"
    and ys': "mapE f xs = Inr ys'" and ys: "ys = y # ys'"
    by (auto split: sum.splits)
  from Cons.IH[OF ys'] have len: "length ys' = length xs"
    and nth: "\<forall>j < length xs. f (xs ! j) = Inr (ys' ! j)" by simp_all
  have "f ((x # xs) ! j) = Inr (ys ! j)" if "j < length (x # xs)" for j
  proof (cases j)
    case 0
    with y ys show ?thesis by simp
  next
    case (Suc k)
    with that nth ys show ?thesis by simp
  qed
  with len ys show ?case by simp
qed

lemma mapE_total:
  "(\<And>x. x \<in> set xs \<Longrightarrow> \<exists>y. f x = Inr y) \<Longrightarrow> \<exists>ys. mapE f xs = Inr ys"
proof (induction xs)
  case Nil
  then show ?case by simp
next
  case (Cons x xs)
  from Cons.prems[of x] obtain y where y: "f x = Inr y" by auto
  from Cons.IH Cons.prems obtain ys where "mapE f xs = Inr ys" by auto
  with y show ?case by simp
qed

lemma forEachBlock_total:
  "(\<And>i b. b \<in> set bs \<Longrightarrow> \<exists>s. f i b = Inr s) \<Longrightarrow> \<exists>ls. forEachBlock f k bs = Inr ls"
proof (induction bs arbitrary: k)
  case Nil
  then show ?case by simp
next
  case (Cons b bs)
  from Cons.prems[of b k] obtain s where s: "f k b = Inr s" by auto
  from Cons.IH[of "k + 1"] Cons.prems obtain ls where "forEachBlock f (k + 1) bs = Inr ls" by auto
  with s show ?case by simp
qed

lemma links_sections:
  assumes "links itineraryText dest = Inr ls"
  shows "length ls = length (dayBlocks itineraryText)"
    and "i < length (dayBlocks itineraryText) \<Longrightarrow>
           daySection (inferredDestination dest) (dayTitles itineraryText) i
             (dayBlocks itineraryText ! i) = Inr (ls ! i)"
proof -
  let ?f = "daySection (inferredDestination dest) (dayTitles itineraryText)"
  from assms have "forEachBlock ?f 0 (dayBlocks itineraryText) = Inr ls"
    by (simp add: links_def)
  from forEachBlock_Inr[OF this] show "length ls = length (dayBlocks itineraryText)"
    and "i < length (dayBlocks itineraryText) \<Longrightarrow> ?f i (dayBlocks itineraryText ! i) = Inr (ls ! i)"
    by simp_all
qed

lemma generateMapLinks_Inr:
  assumes "generateMapLinks itineraryText dest = Inr out"
  shows "\<exists>ls. links itineraryText dest = Inr ls \<and>
              out = trim ([LF] @ js '' **Google Maps Links for Each Day**'' @ [LF] @ [LF] @
                          join [LF, LF] ls @ [LF] @ js ''    '')"
  using assms by (auto simp: generateMapLinks_def split: sum.splits)

lemma titleOr_dayTitles:
  assumes "i < length (dayBlocks s)"
  shows "titleOr (dayTitles s) i = dayTitles s ! i"
proof -
  have "dayTitles s ! i \<in> set (dayTitles s)"
    using assms by (simp add: dayTitles_length)
  then have "dayTitles s ! i \<noteq> []" by (rule dayTitles_nonempty)
  then show ?thesis using assms by (simp add: titleOr_def dayTitles_length)
qed

lemma daySection_no_place:
  assumes "places block = Inr []"
  shows "daySection inferred titles index block =
           Inr (js ''**'' @ titleOr titles index @ js ''**'' @ [LF] @
                js ''No recognizable locations found.'')"
  using assms by (simp add: daySection_def localContext_spec)

lemma daySection_some_place:
  assumes "daySection inferred titles index block = Inr rendered"
    and "places block = Inr ps" and "ps \<noteq> []"
  shows "\<exists>context dailyLinks.
           localContext inferred block = Inr context \<and>
           mapE (mapLink context) ps = Inr dailyLinks \<and>
           rendered = js ''**'' @ titleOr titles index @ js ''**'' @ [LF] @ join [LF] dailyLinks"
  using assms by (auto simp: daySection_def split: sum.splits)

subsection \<open>When no error is raised\<close>

lemma encodeURIComponent_total:
  "(\<forall>c \<in> set s. c < 55296 \<or> 57343 < c) \<Longrightarrow> \<exists>t. encodeURIComponent s = Inr t"
proof (induction s)
  case Nil
  then show ?case by simp
next
  case (Cons c cs)
  then obtain t where t: "encodeURIComponent cs = Inr t" by auto
  from Cons.prems have "c < 55296 \<or> 57343 < c" by simp
  with t show ?case by auto
qed

lemma mapLink_total:
  assumes "\<forall>c \<in> set place. c < 55296 \<or> 57343 < c" and "\<forall>c \<in> set context. c < 55296 \<or> 57343 < c"
  shows "\<exists>l. mapLink context place = Inr l"
proof -
  have "\<forall>c \<in> set (place @ js '', '' @ context). c < 55296 \<or> 57343 < c"
    using assms by (auto simp: js_def)
  from encodeURIComponent_total[OF this] show ?thesis
    by (auto simp: mapLink_def Let_def)
qed

lemma set_trim: "set (trim s) \<subseteq> set s"
proof -
  have "set (trimEnd t) \<subseteq> set t" for t
    unfolding trimEnd_def using set_dropWhileD[of _ isWhiteSpace "rev t"] by auto
  moreover have "set (trimStart s) \<subseteq> set s"
    unfolding trimStart_def using set_dropWhileD[of _ isWhiteSpace s] by auto
  ultimately show ?thesis unfolding trim_def by blast
qed

lemma phraseAfter_units:
  assumes "spec_phraseAfter r = Some (ph, rest)"
  shows "\<forall>c \<in> set ph. c < 128"
proof -
  from assms obtain l r2 where ph: "ph = l # takeWhile isPhraseChar r2" and l: "isLetter l"
    by (auto simp: spec_phraseAfter_def split: if_splits list.splits)
  have "c < 128" if "c \<in> set (takeWhile isPhraseChar r2)" for c
  proof -
    from that have "isPhraseChar c" by (rule set_takeWhileD[THEN conjunct2])
    then show ?thesis by (auto simp: isPhraseChar_def isWordChar_def)
  qed
  moreover have "l < 128" using l by (auto simp: isLetter_def)
  ultimately show ?thesis using ph by auto
qed

lemma firstWord_units:
  "spec_firstWord words r = Some (ph, rest) \<Longrightarrow> \<forall>c \<in> set ph. c < 128"
proof (induction words)
  case Nil
  then show ?case by simp
next
  case (Cons w ws)
  show ?case
  proof (cases "if startsWithWord w r then spec_phraseAfter (drop (length w) r) else None")
    case None
    with Cons show ?thesis by simp
  next
    case (Some x)
    with Cons.prems have x: "x = (ph, rest)" by simp
    from Some x have "spec_phraseAfter (drop (length w) r) = Some (ph, rest)"
      by (simp split: if_splits)
    then show ?thesis by (rule phraseAfter_units)
  qed
qed

lemma nextOccurrence_units:
  "spec_nextOccurrence words b r = Some (ph, b1, r1) \<Longrightarrow> \<forall>c \<in> set ph. c < 128"
proof (induction r arbitrary: b)
  case Nil
  then show ?case by simp
next
  case (Cons ch r)
  show ?case
  proof (cases "spec_occurrenceAt words b (ch # r)")
    case None
    with Cons.prems have "spec_nextOccurrence words (ch # b) r = Some (ph, b1, r1)" by simp
    from Cons.IH[OF this] show ?thesis .
  next
    case (Some x)
    with Cons.prems have x: "x = (ph, r1)" by (cases x) simp
    from Some x have "spec_firstWord words (ch # r) = Some (ph, r1)"
      by (simp add: spec_occurrenceAt_def split: if_splits)
    then show ?thesis by (rule firstWord_units)
  qed
qed

lemma spec_places_units:
  "p \<in> set (spec_places words b r) \<Longrightarrow> \<forall>c \<in> set p. c < 128"
proof (induction "length r" arbitrary: b r rule: less_induct)
  case less
  show ?case
  proof (cases "spec_nextOccurrence words b r")
    case None
    then have "spec_places words b r = []" by (subst spec_places.simps) simp
    with less.prems show ?thesis by simp
  next
    case (Some x)
    obtain ph b1 r1 where x: "x = (ph, b1, r1)" by (cases x) auto
    have sp: "spec_places words b r = trim ph # spec_places words b1 r1"
      using Some x by (subst spec_places.simps) simp
    from Some x have no: "spec_nextOccurrence words b r = Some (ph, b1, r1)" by simp
    from less.prems sp consider "p = trim ph" | "p \<in> set (spec_places words b1 r1)" by auto
    then show ?thesis
    proof cases
      case 1
      with nextOccurrence_units[OF no] set_trim[of ph] show ?thesis by auto
    next
      case 2
      from spec_nextOccurrence_length[OF no] have "length r1 < length r" .
      from less.hyps[OF this 2] show ?thesis .
    qed
  qed
qed

lemma localContext_units:
  assumes "\<forall>c \<in> set inferred. c < 55296 \<or> 57343 < c"
    and "localContext inferred block = Inr context"
  shows "\<forall>c \<in> set context. c < 55296 \<or> 57343 < c"
proof (cases "spec_nextOccurrence [js ''in'', js ''around'', js ''near'', js ''visit'', js ''explore'']
                [] block")
  case None
  with assms(2) have "context = inferred"
    by (simp add: localContext_spec spec_localContext_def)
  with assms(1) show ?thesis by simp
next
  case (Some x)
  obtain ph b1 r1 where x: "x = (ph, b1, r1)" by (cases x) auto
  with Some assms(2) have c: "context = trim ph"
    by (simp add: localContext_spec spec_localContext_def)
  from Some x have "\<forall>c \<in> set ph. c < 128" by (auto dest: nextOccurrence_units)
  with set_trim[of ph] c show ?thesis by fastforce
qed

lemma daySection_total:
  assumes "\<forall>c \<in> set inferred. c < 55296 \<or> 57343 < c"
  shows "\<exists>rendered. daySection inferred titles index block = Inr rendered"
proof -
  let ?ps = "spec_places [js ''at'', js ''in'', js ''around'', js ''near'', js ''visit'',
                          js ''explore'', js ''lunch at'', js ''dinner at''] [] block"
  have p: "places block = Inr ?ps" by (rule places_spec)
  obtain ctx where c: "localContext inferred block = Inr ctx"
    by (simp add: localContext_spec)
  from localContext_units[OF assms c] have cu: "\<forall>c \<in> set ctx. c < 55296 \<or> 57343 < c" .
  have "\<exists>l. mapLink ctx place = Inr l" if "place \<in> set ?ps" for place
  proof -
    from spec_places_units[OF that] have "\<forall>c \<in> set place. c < 55296 \<or> 57343 < c" by fastforce
    then show ?thesis using cu by (rule mapLink_total)
  qed
  then obtain dailyLinks where "mapE (mapLink ctx) ?ps = Inr dailyLinks"
    using mapE_total[of ?ps "mapLink ctx"] by blast
  then show ?thesis by (simp add: daySection_def p c)
qed

lemma generateMapLinks_total:
  assumes "\<forall>c \<in> set (inferredDestination dest). c < 55296 \<or> 57343 < c"
  shows "\<exists>out. generateMapLinks itineraryText dest = Inr out"
proof -
  have "\<exists>ls. forEachBlock (daySection (inferredDestination dest) (dayTitles itineraryText)) 0
               (dayBlocks itineraryText) = Inr ls"
    by (rule forEachBlock_total) (rule daySection_total[OF assms])
  then show ?thesis by (auto simp: generateMapLinks_def links_def)
qed

text \<open>
  Claim C8, amended.  Processing a day block in which no place is found
  raises nothing and gives the title line followed by the line
  \<open>No recognizable locations found.\<close>  Whenever the call returns, its result
  is made of one section per day block, in order, and the section of every
  day without a place is that title line and that literal line, so the day
  stays in the output and holds no link.  The call returns at least when the
  destination (or the default that stands for a missing one) holds no
  surrogate code unit.
\<close>

theorem no_match_day:
  "(places block = Inr [] \<longrightarrow>
      daySection inferred titles index block =
        Inr (js ''**'' @ titleOr titles index @ js ''**'' @ [LF] @
             js ''No recognizable locations found.'')) \<and>
   (\<forall>out. generateMapLinks itineraryText dest = Inr out \<longrightarrow>
      (\<exists>ls. links itineraryText dest = Inr ls \<and>
            out = trim ([LF] @ js '' **Google Maps Links for Each Day**'' @ [LF] @ [LF] @
                        join [LF, LF] ls @ [LF] @ js ''    '') \<and>
            length ls = length (dayBlocks itineraryText) \<and>
            (\<forall>i < length (dayBlocks itineraryText).
               places (dayBlocks itineraryText ! i) = Inr [] \<longrightarrow>
               ls ! i = js ''**'' @ dayTitles itineraryText ! i @ js ''**'' @ [LF] @
                        js ''No recognizable locations found.''))) \<and>
   ((\<forall>c \<in> set (inferredDestination dest). c < 55296 \<or> 57343 < c) \<longrightarrow>
      (\<exists>out. generateMapLinks itineraryText dest = Inr out))"
proof (intro conjI allI impI)
  assume "places block = Inr []"
  then show "daySection inferred titles index block =
        Inr (js ''**'' @ titleOr titles index @ js ''**'' @ [LF] @
             js ''No recognizable locations found.'')"
    by (rule daySection_no_place)
next
  fix out
  assume "generateMapLinks itineraryText dest = Inr out"
  from generateMapLinks_Inr[OF this] obtain ls where l: "links itineraryText dest = Inr ls"
    and out: "out = trim ([LF] @ js '' **Google Maps Links for Each Day**'' @ [LF] @ [LF] @
                        join [LF, LF] ls @ [LF] @ js ''    '')" by blast
  have "ls ! i = js ''**'' @ dayTitles itineraryText ! i @ js ''**'' @ [LF] @
                  js ''No recognizable locations found.''"
    if i: "i < length (dayBlocks itineraryText)"
      and p: "places (dayBlocks itineraryText ! i) = Inr []" for i
    using links_sections(2)[OF l i] daySection_no_place[OF p] titleOr_dayTitles[OF i] by simp
  with l out links_sections(1)[OF l]
  show "\<exists>ls. links itineraryText dest = Inr ls \<and>
            out = trim ([LF] @ js '' **Google Maps Links for Each Day**'' @ [LF] @ [LF] @
                        join [LF, LF] ls @ [LF] @ js ''    '') \<and>
            length ls = length (dayBlocks itineraryText) \<and>
            (\<forall>i < length (dayBlocks itineraryText).
               places (dayBlocks itineraryText ! i) = Inr [] \<longrightarrow>
               ls ! i = js ''**'' @ dayTitles itineraryText ! i @ js ''**'' @ [LF] @
                        js ''No recognizable locations found.'')"
    by blast
next
  assume "\<forall>c \<in> set (inferredDestination dest). c < 55296 \<or> 57343 < c"
  then show "\<exists>out. generateMapLinks itineraryText dest = Inr out"
    by (rule generateMapLinks_total)
qed

lemma sampleText_blocks:
  "dayBlocks sampleText
     = [js '' Rome** dinner at Roma Sparita. '', js '' Rest** nothing planned.'']"
  by (simp add: sampleText_def dayBlocks_def split_def headingRegex_def eval_simps)

lemma sampleText_titles: "dayTitles sampleText = [js ''**Day 1 Rome'', js ''**Day 2 Rest'']"
  by (simp add: sampleText_def dayTitles_def matchAll_def titleRegex_def eval_simps)

lemma sampleText_places:
  "places (js '' Rome** dinner at Roma Sparita. '') = Inr [js ''Roma Sparita'']"
  "places (js '' Rest** nothing planned.'') = Inr []"
  by (simp_all add: places_def matchAll_def locationRegex_def prepositionPhrase_def
        trimmedCapture_def eval_simps)

lemma sampleText_context:
  "localContext inferred (js '' Rome** dinner at Roma Sparita. '') = Inr inferred"
  by (simp add: localContext_def firstMatch_def contextRegex_def prepositionPhrase_def
        trimmedCapture_def eval_simps)

theorem no_match_day_witness:
  "inferredDestination None = js ''the trip destination'' \<and>
   dayBlocks sampleText
     = [js '' Rome** dinner at Roma Sparita. '', js '' Rest** nothing planned.''] \<and>
   places (js '' Rest** nothing planned.'') = Inr [] \<and>
   (\<exists>out ls. generateMapLinks sampleText None = Inr out \<and>
      links sampleText None = Inr ls \<and> length ls = 2 \<and>
      ls ! 1 = js ''****Day 2 Rest**'' @ [LF] @ js ''No recognizable locations found.'')"
proof -
  have d: "inferredDestination None = js ''the trip destination''"
    by (simp add: inferredDestination_def)
  have u: "\<forall>c \<in> set (inferredDestination None). c < 55296 \<or> 57343 < c"
    by (simp add: d js_def)
  note inst = no_match_day[of "js '' Rest** nothing planned.''" "js ''the trip destination''"
               "dayTitles sampleText" 1 sampleText None]
  from inst u obtain out where out: "generateMapLinks sampleText None = Inr out" by blast
  with inst obtain ls where ls: "links sampleText None = Inr ls"
    and len: "length ls = length (dayBlocks sampleText)"
    and nth: "\<forall>i < length (dayBlocks sampleText).
               places (dayBlocks sampleText ! i) = Inr [] \<longrightarrow>
               ls ! i = js ''**'' @ dayTitles sampleText ! i @ js ''**'' @ [LF] @
                        js ''No recognizable locations found.''"
    by blast
  from nth have "ls ! 1 = js ''**'' @ dayTitles sampleText ! 1 @ js ''**'' @ [LF] @
                        js ''No recognizable locations found.''"
    by (simp add: sampleText_blocks sampleText_places)
  then have "ls ! 1 = js ''****Day 2 Rest**'' @ [LF] @ js ''No recognizable locations found.''"
    by (simp add: sampleText_titles js_def)
  moreover have "length ls = 2" using len by (simp add: sampleText_blocks)
  ultimately show ?thesis
    using d out ls sampleText_blocks sampleText_places(2) by blast
qed

text \<open>
  Claim C8 as stated promises the line for every day without a place and that
  no error is raised.  The call renders all days or none: with a destination
  that is a lone surrogate the link of the first day cannot be encoded,
  \<open>encodeURIComponent\<close> throws, and the second day, which has no place, is not
  rendered at all.
\<close>

theorem throwing_day_counterexample:
  "dayBlocks sampleText
     = [js '' Rome** dinner at Roma Sparita. '', js '' Rest** nothing planned.''] \<and>
   places (js '' Rest** nothing planned.'') = Inr [] \<and>
   generateMapLinks sampleText (Some [55296]) = Inl URIError"
proof -
  have d: "inferredDestination (Some [55296]) = [55296]"
    by (simp add: inferredDestination_def)
  have "mapLink [55296] (js ''Roma Sparita'') = Inl URIError"
    by (simp add: mapLink_def js_def uriUnescaped_def percent_def utf8_def hexDigit_def)
  then have "daySection [55296] (dayTitles sampleText) 0 (js '' Rome** dinner at Roma Sparita. '')
               = Inl URIError"
    by (simp add: daySection_def sampleText_places sampleText_context)
  then have "links sampleText (Some [55296]) = Inl URIError"
    by (simp add: links_def d sampleText_blocks)
  then have "generateMapLinks sampleText (Some [55296]) = Inl URIError"
    by (simp add: generateMapLinks_def)
  with sampleText_blocks sampleText_places(2) show ?thesis by (intro conjI)
qed

theorem titles_match_blocks_witness:
  "1 < length (dayBlocks sampleText) \<and>
   length (dayTitles sampleText) = 2 \<and>
   dayTitles sampleText ! 1 \<noteq> [] \<and>
   titleOr (dayTitles sampleText) 1 = js ''**Day 2 Rest''"
proof -
  have b: "dayBlocks sampleText
             = [js '' Rome** dinner at Roma Sparita. '', js '' Rest** nothing planned.'']"
    by (simp add: sampleText_def dayBlocks_def split_def headingRegex_def eval_simps)
  have t: "dayTitles sampleText ! 1 = js ''**Day 2 Rest''"
    by (simp add: sampleText_def dayTitles_def matchAll_def titleRegex_def eval_simps)
  have l: "1 < length (dayBlocks sampleText)" by (simp add: b)
  from titles_match_blocks[of sampleText] l
  have "length (dayTitles sampleText) = length (dayBlocks sampleText)"
    and "dayTitles sampleText ! 1 \<noteq> []"
    and "titleOr (dayTitles sampleText) 1 = dayTitles sampleText ! 1" by blast+
  with l t b show ?thesis by simp
qed

text \<open>
  Claim C6, amended.  The candidate places of a day block are the trimmed
  phrases found by scanning the block from left to right for the next
  occurrence of one of the words at, in, around, near, visit, explore,
  lunch at, dinner at (at a word boundary, in either case), white space, and a
  phrase that starts with an ASCII letter of either case and continues with
  the longest non-empty run of letters, digits, underscores, apostrophes,
  ampersands, hyphens and spaces; the scan resumes after the phrase, so an
  occurrence inside a phrase yields no place of its own.  Nothing is
  deduplicated: the section of a day with places holds, under the title line,
  one link line for each candidate place, in the order of the places, so a
  place mentioned twice has two link lines; and this is so for the section
  of every day in the text that \<open>generateMapLinks\<close> returns.
\<close>

theorem places_scan:
  "places block =
     Inr (spec_places [js ''at'', js ''in'', js ''around'', js ''near'', js ''visit'',
                       js ''explore'', js ''lunch at'', js ''dinner at''] [] block) \<and>
   (\<forall>ps rendered.
      places block = Inr ps \<and> ps \<noteq> [] \<and>
      daySection inferred titles index block = Inr rendered \<longrightarrow>
      (\<exists>context dailyLinks.
         localContext inferred block = Inr context \<and>
         length dailyLinks = length ps \<and>
         (\<forall>j < length ps. mapLink context (ps ! j) = Inr (dailyLinks ! j)) \<and>
         rendered = js ''**'' @ titleOr titles index @ js ''**'' @ [LF] @ join [LF] dailyLinks)) \<and>
   (\<forall>out. generateMapLinks itineraryText dest = Inr out \<longrightarrow>
      (\<exists>ls. links itineraryText dest = Inr ls \<and>
            out = trim ([LF] @ js '' **Google Maps Links for Each Day**'' @ [LF] @ [LF] @
                        join [LF, LF] ls @ [LF] @ js ''    '') \<and>
            length ls = length (dayBlocks itineraryText) \<and>
            (\<forall>i < length (dayBlocks itineraryText). \<forall>ps.
               places (dayBlocks itineraryText ! i) = Inr ps \<and> ps \<noteq> [] \<longrightarrow>
               (\<exists>context dailyLinks.
                  localContext (inferredDestination dest) (dayBlocks itineraryText ! i)
                    = Inr context \<and>
                  length dailyLinks = length ps \<and>
                  (\<forall>j < length ps. mapLink context (ps ! j) = Inr (dailyLinks ! j)) \<and>
                  ls ! i = js ''**'' @ dayTitles itineraryText ! i @ js ''**'' @ [LF] @
                           join [LF] dailyLinks))))"
proof -
  have day: "\<exists>context dailyLinks.
         localContext inferred block = Inr context \<and>
         length dailyLinks = length ps \<and>
         (\<forall>j < length ps. mapLink context (ps ! j) = Inr (dailyLinks ! j)) \<and>
         rendered = js ''**'' @ titleOr titles index @ js ''**'' @ [LF] @ join [LF] dailyLinks"
    if "places block = Inr ps" "ps \<noteq> []" "daySection inferred titles index block = Inr rendered"
    for inferred titles index block ps rendered
  proof -
    from daySection_some_place[OF that(3) that(1) that(2)] obtain ctx dailyLinks where
      c: "localContext inferred block = Inr ctx"
      and m: "mapE (mapLink ctx) ps = Inr dailyLinks"
      and s: "rendered = js ''**'' @ titleOr titles index @ js ''**'' @ [LF] @ join [LF] dailyLinks"
      by blast
    from mapE_Inr_nth[OF m] c s show ?thesis by blast
  qed
  have all: "\<exists>ls. links itineraryText dest = Inr ls \<and>
            out = trim ([LF] @ js '' **Google Maps Links for Each Day**'' @ [LF] @ [LF] @
                        join [LF, LF] ls @ [LF] @ js ''    '') \<and>
            length ls = length (dayBlocks itineraryText) \<and>
            (\<forall>i < length (dayBlocks itineraryText). \<forall>ps.
               places (dayBlocks itineraryText ! i) = Inr ps \<and> ps \<noteq> [] \<longrightarrow>
               (\<exists>context dailyLinks.
                  localContext (inferredDestination dest) (dayBlocks itineraryText ! i)
                    = Inr context \<and>
                  length dailyLinks = length ps \<and>
                  (\<forall>j < length ps. mapLink context (ps ! j) = Inr (dailyLinks ! j)) \<and>
                  ls ! i = js ''**'' @ dayTitles itineraryText ! i @ js ''**'' @ [LF] @
                           join [LF] dailyLinks))"
    if g: "generateMapLinks itineraryText dest = Inr out" for out
  proof -
    from generateMapLinks_Inr[OF g] obtain ls where l: "links itineraryText dest = Inr ls"
      and out: "out = trim ([LF] @ js '' **Google Maps Links for Each Day**'' @ [LF] @ [LF] @
                        join [LF, LF] ls @ [LF] @ js ''    '')" by blast
    have "\<exists>context dailyLinks.
                  localContext (inferredDestination dest) (dayBlocks itineraryText ! i)
                    = Inr context \<and>
                  length dailyLinks = length ps \<and>
                  (\<forall>j < length ps. mapLink context (ps ! j) = Inr (dailyLinks ! j)) \<and>
                  ls ! i = js ''**'' @ dayTitles itineraryText ! i @ js ''**'' @ [LF] @
                           join [LF] dailyLinks"
      if i: "i < length (dayBlocks itineraryText)"
        and p: "places (dayBlocks itineraryText ! i) = Inr ps" and ne: "ps \<noteq> []" for i ps
      using day[OF p ne links_sections(2)[OF l i]] titleOr_dayTitles[OF i] by simp
    with l out links_sections(1)[OF l] show ?thesis by blast
  qed
  from places_spec[of block] day all show ?thesis by blast
qed

lemma repeatText_blocks:
  "dayBlocks repeatText = [js '' Rome** dinner at Rome, drinks at Rome.'']"
  by (simp add: repeatText_def dayBlocks_def split_def headingRegex_def eval_simps)

lemma repeatText_titles: "dayTitles repeatText = [js ''**Day 1 Rome'']"
  by (simp add: repeatText_def dayTitles_def matchAll_def titleRegex_def eval_simps)

lemma repeatText_places:
  "places (js '' Rome** dinner at Rome, drinks at Rome.'') = Inr [js ''Rome'', js ''Rome'']"
  by (simp add: places_def matchAll_def locationRegex_def prepositionPhrase_def
        trimmedCapture_def eval_simps)

lemma repeatText_context:
  "localContext inferred (js '' Rome** dinner at Rome, drinks at Rome.'') = Inr inferred"
  by (simp add: localContext_def firstMatch_def contextRegex_def prepositionPhrase_def
        trimmedCapture_def eval_simps)

lemma romeLink_eq: "mapLink (js ''Italy'') (js ''Rome'') = Inr romeLink"
  by (simp add: mapLink_def romeLink_def js_def uriUnescaped_def percent_def utf8_def
        hexDigit_def)

lemma repeatText_links:
  "links repeatText (Some (js ''Italy''))
     = Inr [js ''****Day 1 Rome**'' @ [LF] @ romeLink @ [LF] @ romeLink]"
proof -
  have "inferredDestination (Some (js ''Italy'')) = js ''Italy''"
    by (simp add: inferredDestination_def js_def)
  moreover have "titleOr [js ''**Day 1 Rome''] 0 = js ''**Day 1 Rome''"
    by (simp add: titleOr_def js_def)
  ultimately show ?thesis
    by (simp add: links_def repeatText_blocks repeatText_titles daySection_def repeatText_places
          repeatText_context romeLink_eq)
       (simp add: js_def)
qed

lemma repeatText_output:
  "generateMapLinks repeatText (Some (js ''Italy''))
     = Inr (js ''**Google Maps Links for Each Day**'' @ [LF, LF] @
            js ''****Day 1 Rome**'' @ [LF] @ romeLink @ [LF] @ romeLink)"
  by (simp add: generateMapLinks_def repeatText_links)
     (simp add: romeLink_def bullet_def LF_def js_def trim_def trimStart_def trimEnd_def
        isWhiteSpace_def)

theorem places_scan_witness:
  "dayBlocks repeatText = [js '' Rome** dinner at Rome, drinks at Rome.''] \<and>
   places (js '' Rome** dinner at Rome, drinks at Rome.'') = Inr [js ''Rome'', js ''Rome''] \<and>
   spec_places [js ''at'', js ''in'', js ''around'', js ''near'', js ''visit'',
                js ''explore'', js ''lunch at'', js ''dinner at''] []
     (js '' Rome** dinner at Rome, drinks at Rome.'') = [js ''Rome'', js ''Rome''] \<and>
   generateMapLinks repeatText (Some (js ''Italy''))
     = Inr (js ''**Google Maps Links for Each Day**'' @ [LF, LF] @
            js ''****Day 1 Rome**'' @ [LF] @ romeLink @ [LF] @ romeLink) \<and>
   (\<exists>ls dailyLinks.
      links repeatText (Some (js ''Italy'')) = Inr ls \<and> length ls = 1 \<and>
      length dailyLinks = 2 \<and> dailyLinks ! 0 = romeLink \<and> dailyLinks ! 1 = romeLink \<and>
      ls ! 0 = js ''****Day 1 Rome**'' @ [LF] @ join [LF] dailyLinks)"
proof -
  let ?block = "js '' Rome** dinner at Rome, drinks at Rome.''"
  note inst = places_scan[of ?block "js ''Italy''" "dayTitles repeatText" 0 repeatText
               "Some (js ''Italy'')"]
  from inst repeatText_places have sp:
    "spec_places [js ''at'', js ''in'', js ''around'', js ''near'', js ''visit'',
                  js ''explore'', js ''lunch at'', js ''dinner at''] [] ?block
       = [js ''Rome'', js ''Rome'']"
    by simp
  from inst repeatText_output obtain ls where ls: "links repeatText (Some (js ''Italy'')) = Inr ls"
    and len: "length ls = length (dayBlocks repeatText)"
    and nth: "\<forall>i < length (dayBlocks repeatText). \<forall>ps.
               places (dayBlocks repeatText ! i) = Inr ps \<and> ps \<noteq> [] \<longrightarrow>
               (\<exists>context dailyLinks.
                  localContext (inferredDestination (Some (js ''Italy''))) (dayBlocks repeatText ! i)
                    = Inr context \<and>
                  length dailyLinks = length ps \<and>
                  (\<forall>j < length ps. mapLink context (ps ! j) = Inr (dailyLinks ! j)) \<and>
                  ls ! i = js ''**'' @ dayTitles repeatText ! i @ js ''**'' @ [LF] @
                           join [LF] dailyLinks)"
    by blast
  have d: "inferredDestination (Some (js ''Italy'')) = js ''Italy''"
    by (simp add: inferredDestination_def js_def)
  have i0: "0 < length (dayBlocks repeatText)"
    and p0: "places (dayBlocks repeatText ! 0) = Inr [js ''Rome'', js ''Rome''] \<and>
             [js ''Rome'', js ''Rome''] \<noteq> []"
    by (simp_all add: repeatText_blocks repeatText_places)
  from nth i0 p0 obtain ctx dailyLinks where
    c: "localContext (inferredDestination (Some (js ''Italy''))) (dayBlocks repeatText ! 0)
          = Inr ctx"
    and dl: "length dailyLinks = length [js ''Rome'', js ''Rome'']"
    and m: "\<forall>j < length [js ''Rome'', js ''Rome''].
              mapLink ctx ([js ''Rome'', js ''Rome''] ! j) = Inr (dailyLinks ! j)"
    and l0: "ls ! 0 = js ''**'' @ dayTitles repeatText ! 0 @ js ''**'' @ [LF] @ join [LF] dailyLinks"
    by blast
  from c have ctx: "ctx = js ''Italy''" by (simp add: d repeatText_blocks repeatText_context)
  have "mapLink ctx ([js ''Rome'', js ''Rome''] ! 0) = Inr (dailyLinks ! 0)"
    "mapLink ctx ([js ''Rome'', js ''Rome''] ! 1) = Inr (dailyLinks ! 1)"
    using m[rule_format, of 0] m[rule_format, of 1] by simp_all
  then have e: "dailyLinks ! 0 = romeLink" "dailyLinks ! 1 = romeLink"
    by (simp_all add: ctx romeLink_eq)
  have dl2: "length dailyLinks = 2" using dl by simp
  have "ls ! 0 = js ''****Day 1 Rome**'' @ [LF] @ join [LF] dailyLinks"
    using l0 by (simp add: repeatText_titles js_def)
  moreover have "length ls = 1" using len by (simp add: repeatText_blocks)
  ultimately show ?thesis
    using repeatText_blocks repeatText_places sp repeatText_output ls dl2 e by blast
qed

text \<open>
  Claim C6 as stated fails: the phrase need not be capitalized (the \<open>i\<close> flag
  covers \<open>[A-Z]\<close> too), it may hold digits, and an occurrence inside an earlier
  phrase is not a candidate.
\<close>

theorem places_counterexample:
  "places (js ''stay at home'') = Inr [js ''home''] \<and>
   \<not> (65 \<le> hd (js ''home'') \<and> hd (js ''home'') \<le> 90) \<and>
   places (js ''lunch at Pier 39.'') = Inr [js ''Pier 39''] \<and>
   places (js ''at Cafe Roma in Rome.'') = Inr [js ''Cafe Roma in Rome'']"
proof -
  have "places (js ''stay at home'') = Inr [js ''home'']"
    by (simp add: places_def matchAll_def locationRegex_def prepositionPhrase_def
          trimmedCapture_def eval_simps)
  moreover have "places (js ''lunch at Pier 39.'') = Inr [js ''Pier 39'']"
    by (simp add: places_def matchAll_def locationRegex_def prepositionPhrase_def
          trimmedCapture_def eval_simps)
  moreover have "places (js ''at Cafe Roma in Rome.'') = Inr [js ''Cafe Roma in Rome'']"
    by (simp add: places_def matchAll_def locationRegex_def prepositionPhrase_def
          trimmedCapture_def eval_simps)
  moreover have "\<not> (65 \<le> hd (js ''home'') \<and> hd (js ''home'') \<le> 90)"
    by (simp add: js_def)
  ultimately show ?thesis by (intro conjI)
qed

text \<open>
  Claim C7, amended.  The local context of a day block is the trimmed phrase
  of the first occurrence, from the left, of one of the words in, around,
  near, visit, explore (at a word boundary, in either case), white space, and
  a phrase that starts with an ASCII letter of either case; when the block has
  no such occurrence it is the destination if one was given and is not the
  empty string, and the literal \<open>the trip destination\<close> otherwise.
\<close>

theorem local_context_resolution:
  "localContext (inferredDestination dest) block =
     Inr (case spec_nextOccurrence
                 [js ''in'', js ''around'', js ''near'', js ''visit'', js ''explore''] [] block of
            Some (phrase, b1, r1) \<Rightarrow> trim phrase
          | None \<Rightarrow>
              (case dest of
                 Some d \<Rightarrow> if d = [] then js ''the trip destination'' else d
               | None \<Rightarrow> js ''the trip destination''))"
  by (simp add: localContext_spec spec_localContext_def inferredDestination_def
        split: option.splits)

theorem local_context_resolution_witness:
  "localContext (inferredDestination None) (js ''walking tour in Tokyo, then rest'')
     = Inr (js ''Tokyo'') \<and>
   (case spec_nextOccurrence [js ''in'', js ''around'', js ''near'', js ''visit'', js ''explore'']
           [] (js ''walking tour in Tokyo, then rest'') of
      Some (phrase, b1, r1) \<Rightarrow> trim phrase
    | None \<Rightarrow> js ''the trip destination'') = js ''Tokyo'' \<and>
   localContext (inferredDestination (Some (js ''Italy''))) (js ''lunch at Roma'')
     = Inr (js ''Italy'')"
proof -
  have a: "localContext (inferredDestination None) (js ''walking tour in Tokyo, then rest'')
             = Inr (js ''Tokyo'')"
    by (simp add: localContext_def firstMatch_def contextRegex_def prepositionPhrase_def
          trimmedCapture_def inferredDestination_def eval_simps)
  have b: "localContext (inferredDestination (Some (js ''Italy''))) (js ''lunch at Roma'')
             = Inr (js ''Italy'')"
    by (simp add: localContext_def firstMatch_def contextRegex_def prepositionPhrase_def
          trimmedCapture_def inferredDestination_def eval_simps)
  from local_context_resolution[of None "js ''walking tour in Tokyo, then rest''"] a b
  show ?thesis by (simp cong del: option.case_cong_weak)
qed

text \<open>
  Claim C7 as stated fails twice: a phrase that is not capitalized is taken
  as the context, and an empty destination counts as none.
\<close>

theorem local_context_counterexample:
  "localContext (inferredDestination (Some (js ''France''))) (js ''eat in paris'')
     = Inr (js ''paris'') \<and>
   js ''paris'' \<noteq> js ''France'' \<and>
   \<not> (65 \<le> hd (js ''paris'') \<and> hd (js ''paris'') \<le> 90) \<and>
   localContext (inferredDestination (Some [])) (js ''rest'') = Inr (js ''the trip destination'')"
proof -
  have "localContext (inferredDestination (Some (js ''France''))) (js ''eat in paris'')
     = Inr (js ''paris'')"
    by (simp add: localContext_def firstMatch_def contextRegex_def prepositionPhrase_def
          trimmedCapture_def inferredDestination_def eval_simps)
  moreover have "localContext (inferredDestination (Some [])) (js ''rest'')
     = Inr (js ''the trip destination'')"
    by (simp add: localContext_def firstMatch_def contextRegex_def prepositionPhrase_def
          trimmedCapture_def inferredDestination_def eval_simps)
  moreover have "js ''paris'' \<noteq> js ''France''"
    "\<not> (65 \<le> hd (js ''paris'') \<and> hd (js ''paris'') \<le> 90)"
    by (simp_all add: js_def)
  ultimately show ?thesis by (intro conjI)
qed

end
